theory Spec2Isabelle
  imports Main "HOL-Library.Multiset" "HOL-Library.Sublist"
begin

section \<open>Errors and formatting\<close>

text \<open>
  Go's \<open>error\<close> values. The two sentinels of \<open>errors.go\<close> are constructors of their own, so
  that no error coming from outside the package (a driver error, the error returned by a
  migration's action) can be mistaken for them: Go compares sentinels by identity.
  \<open>Wrap p e s\<close> is \<open>fmt.Errorf\<close> with one \<open>%w\<close> verb, \<open>p\<close> and \<open>s\<close> being the formatted text
  before and after it; \<open>New\<close> is \<open>errors.New\<close> or \<open>fmt.Errorf\<close> without \<open>%w\<close>.
  \<open>RuntimePanic\<close> is not an error value: it stands for the run-time panic of a nil
  dereference, which unwinds through every caller unchanged.
\<close>

datatype error =
    ErrDBVersionChangedUp
  | ErrDBVersionChangedDown
  | External string
  | New string
  | Wrap string error string
  | RuntimePanic string

fun Error :: "error \<Rightarrow> string" where
  "Error ErrDBVersionChangedUp = ''database version changed while applying migration up''"
| "Error ErrDBVersionChangedDown = ''database version changed while applying migration down''"
| "Error (External s) = s"
| "Error (New s) = s"
| "Error (Wrap p e s) = p @ Error e @ s"
| "Error (RuntimePanic s) = s"

text \<open>\<open>errors.Is\<close>: the target is the error itself or is reached by unwrapping.\<close>

fun Is :: "error \<Rightarrow> error \<Rightarrow> bool" where
  "Is (Wrap p e s) t = (Wrap p e s = t \<or> Is e t)"
| "Is e t = (e = t)"

text \<open>The verb \<open>%d\<close>: decimal rendering of an integer.\<close>

fun show_nat :: "nat \<Rightarrow> string" where
  "show_nat n = (if n < 10 then [''0123456789'' ! n]
                 else show_nat (n div 10) @ [''0123456789'' ! (n mod 10)])"

declare show_nat.simps [simp del]

definition show_int :: "int \<Rightarrow> string" where
  "show_int i = (if i < 0 then CHR ''-'' # show_nat (nat (- i)) else show_nat (nat i))"

text \<open>\<open>strings.Join\<close>.\<close>

fun Join :: "string list \<Rightarrow> string \<Rightarrow> string" where
  "Join [] sep = []"
| "Join [x] sep = x"
| "Join (x # y # ys) sep = x @ sep @ Join (y # ys) sep"

section \<open>Migrations and their validation (migration.go)\<close>

text \<open>
  A migration's action receives a handle on the database (a transaction or the connection)
  and returns an error or nil. The model gives it the part of the database it is meant to
  change, the user schema of type \<open>'s\<close>, and gets back the schema it leaves behind together
  with its error, if any: an action that fails may still have changed the schema. The
  ledger table belongs to the engine and is not reachable from an action. A nil function
  or nil pointer is \<open>None\<close>.
\<close>

type_synonym 's action = "'s \<Rightarrow> 's \<times> string option"

record 's UpDown =
  Up :: "'s action option"
  Down :: "'s action option"

record 's Migration =
  Version :: int
  UpDown :: "'s UpDown option"
  UpDownNoTX :: "'s UpDown option"

definition validate :: "'s Migration \<Rightarrow> error option" where
  "validate m =
    (if Version m \<le> 0 then Some (New ''migration version must be > 0'')
     else if UpDown m = None \<and> UpDownNoTX m = None then
       Some (New (''migration '' @ show_int (Version m) @
                  '' must have UpDown xor UpDownNoTX fields defined''))
     else if UpDown m \<noteq> None \<and> UpDownNoTX m \<noteq> None then
       Some (New (''migration '' @ show_int (Version m) @
                  '' must have only one of UpDown or UpDownNoTX fields defined''))
     else if (case UpDown m of None \<Rightarrow> False
              | Some ud \<Rightarrow> Up ud = None \<or> Down ud = None) then
       Some (New (''migration '' @ show_int (Version m) @
                  '' UpDown must have both Up and Down functions defined''))
     else if (case UpDownNoTX m of None \<Rightarrow> False
              | Some ud \<Rightarrow> Up ud = None \<or> Down ud = None) then
       Some (New (''migration '' @ show_int (Version m) @
                  '' UpDownNoTX must have both Up and Down functions defined''))
     else None)"

text \<open>
  \<open>migVersionCounters\<close>, a Go map from version to count, as an association list with one
  entry per key; \<open>incr\<close> is \<open>migVersionCounters[v]++\<close>.
\<close>

fun incr :: "int \<Rightarrow> (int \<times> int) list \<Rightarrow> (int \<times> int) list" where
  "incr v [] = [(v, 1)]"
| "incr v ((k, c) # kcs) = (if k = v then (k, c + 1) # kcs else (k, c) # incr v kcs)"

definition dupMessage :: "int \<Rightarrow> int \<Rightarrow> string" where
  "dupMessage version cnt =
     ''migration version '' @ show_int version @ '' is defined '' @ show_int cnt @ '' times''"

text \<open>
  The first loop of \<open>validateMigrations\<close>: count every version and collect the message of
  every migration that does not validate.
\<close>

definition firstLoop :: "'s Migration list \<Rightarrow> (int \<times> int) list \<times> string list" where
  "firstLoop migrations =
     fold (\<lambda>mig (counters, errs).
             (incr (Version mig) counters,
              (case validate mig of Some err \<Rightarrow> errs @ [Error err] | None \<Rightarrow> errs)))
          migrations ([], [])"

text \<open>
  The second loop ranges over the map. Go leaves the iteration order of a map unspecified,
  so the order is a parameter of the model: \<open>rank k\<close> is the position at which the run
  time happens to visit the key \<open>k\<close>, and \<open>rangeMap rank\<close> lists the entries in that order.
  The keys of a map are distinct, so every order of its entries is \<open>rangeMap rank\<close> for
  some \<open>rank\<close>.
\<close>

definition rangeMap :: "(int \<Rightarrow> nat) \<Rightarrow> (int \<times> int) list \<Rightarrow> (int \<times> int) list" where
  "rangeMap rank entries = sort_key (\<lambda>(k, c). rank k) entries"

definition secondLoop :: "(int \<times> int) list \<Rightarrow> string list \<Rightarrow> string list" where
  "secondLoop entries errs0 =
     fold (\<lambda>(version, cnt) errs.
             if cnt > 1 then errs @ [dupMessage version cnt] else errs)
          entries errs0"

definition migValidationErrs ::
  "(int \<Rightarrow> nat) \<Rightarrow> 's Migration list \<Rightarrow> string list" where
  "migValidationErrs rank migrations =
     (case firstLoop migrations of
        (counters, errs) \<Rightarrow> secondLoop (rangeMap rank counters) errs)"

definition validateMigrations ::
  "(int \<Rightarrow> nat) \<Rightarrow> 's Migration list \<Rightarrow> error option" where
  "validateMigrations rank migrations =
     (let migValidationErrs = migValidationErrs rank migrations
      in if length migValidationErrs > 0
         then Some (New (''invalid migration(s): '' @ Join migValidationErrs ''; ''))
         else None)"

section \<open>Sorting (migration.go)\<close>

text \<open>
  Go's \<open>int\<close> is a 64-bit two's complement integer here; versions are modelled as \<open>int\<close>
  and \<open>goInt\<close> says that a value is one a Go \<open>int\<close> can hold. The comparators subtract two
  versions, and that subtraction wraps around: \<open>signed_take_bit 63\<close> is the value a 64-bit
  register holds.
\<close>

definition goInt :: "int \<Rightarrow> bool" where
  "goInt v = (- (2 ^ 63) \<le> v \<and> v < 2 ^ 63)"

definition subInt :: "int \<Rightarrow> int \<Rightarrow> int" where
  "subInt a b = signed_take_bit 63 (a - b)"

text \<open>
  \<open>slices.SortFunc\<close> belongs to Go's standard library. Its contract is to sort ascending
  as the comparison function says (\<open>cmp a b < 0\<close> when \<open>a\<close> goes before \<open>b\<close>), with no
  promise of stability. It is modelled by the insertion sort the library runs on slices of
  at most twelve elements (\<open>insertionSortCmpFunc\<close>): the elements are taken from left to
  right, and each moves to the left as long as \<open>cmp\<close> puts it before its left neighbour.
  \<open>insertFunc\<close> works on the sorted part in reverse, its last element first. On longer
  slices the library sorts by another algorithm, whose result is the same whenever the
  comparison is a strict total order on the elements, as it is for distinct versions.
\<close>

fun insertFunc :: "('a \<Rightarrow> 'a \<Rightarrow> int) \<Rightarrow> 'a \<Rightarrow> 'a list \<Rightarrow> 'a list" where
  "insertFunc cmp x [] = [x]"
| "insertFunc cmp x (y # ys) =
     (if cmp x y < 0 then y # insertFunc cmp x ys else x # y # ys)"

definition SortFunc :: "'a list \<Rightarrow> ('a \<Rightarrow> 'a \<Rightarrow> int) \<Rightarrow> 'a list" where
  "SortFunc xs cmp = rev (fold (insertFunc cmp) xs [])"

definition sortMigrationsDesc :: "'s Migration list \<Rightarrow> 's Migration list" where
  "sortMigrationsDesc migrations =
     SortFunc migrations (\<lambda>a b. subInt (Version b) (Version a))"

definition sortMigrationsAsc :: "'s Migration list \<Rightarrow> 's Migration list" where
  "sortMigrationsAsc migrations =
     SortFunc migrations (\<lambda>a b. subInt (Version a) (Version b))"

section \<open>The database behind the interfaces of db.go\<close>

text \<open>
  The engine reaches the database through the interfaces \<open>DBOrTX\<close>, \<open>TX\<close> and \<open>DB\<close>. The
  model of what is behind them:
  \<^item> \<open>ledger\<close>: the rows of the table \<open>gosmig\<close>, whose column \<open>version\<close> is the primary key;
  \<^item> \<open>schema\<close>: everything else in the database, which the migrations' actions change;
  \<^item> \<open>faults\<close>: what the next calls to the driver will answer, one entry per call,
    \<open>Some e\<close> for a call that fails with the driver error \<open>e\<close> (a lost connection, an
    expired deadline); once the list is used up every call goes through;
  \<^item> \<open>trace\<close>: the calls made so far, kept for the proofs only, as the mocks of the
    repository's tests record them. An invocation of a migration's action is recorded too.
  Deadlines are not modelled: an expired deadline is a failed call.
\<close>

datatype event =
    EvQueryVersion | EvInsert int | EvDelete int
  | EvBeginTx | EvCommit | EvRollback
  | EvActionUp int | EvActionDown int

record 's db =
  ledger :: "int list"
  schema :: 's
  faults :: "string option list"
  trace :: "event list"

definition driverCall :: "event \<Rightarrow> 's db \<Rightarrow> string option \<times> 's db" where
  "driverCall ev d =
     (case faults d of
        [] \<Rightarrow> (None, d\<lparr>trace := trace d @ [ev]\<rparr>)
      | f # fs \<Rightarrow> (f, d\<lparr>faults := fs, trace := trace d @ [ev]\<rparr>))"

text \<open>\<open>SELECT COALESCE(MAX(version), 0) FROM gosmig\<close>.\<close>

definition selectDBVersion :: "int list \<Rightarrow> int" where
  "selectDBVersion rows = (case rows of [] \<Rightarrow> 0 | r # rs \<Rightarrow> fold max rs r)"

text \<open>\<open>QueryRowContext(ctx, selectDBVersionSQL).Scan(&dbVersion)\<close>.\<close>

definition queryDBVersion :: "'s db \<Rightarrow> (string + int) \<times> 's db" where
  "queryDBVersion d =
     (case driverCall EvQueryVersion d of
        (Some e, d') \<Rightarrow> (Inl e, d')
      | (None, d') \<Rightarrow> (Inr (selectDBVersion (ledger d')), d'))"

text \<open>
  \<open>ExecContext(ctx, insertMigVersionSQL, version)\<close>: the primary key refuses a version
  that is already there.
\<close>

definition execInsert :: "int \<Rightarrow> 's db \<Rightarrow> string option \<times> 's db" where
  "execInsert version d =
     (case driverCall (EvInsert version) d of
        (Some e, d') \<Rightarrow> (Some e, d')
      | (None, d') \<Rightarrow>
          if version \<in> set (ledger d') then (Some ''duplicate key value'', d')
          else (None, d'\<lparr>ledger := ledger d' @ [version]\<rparr>))"

text \<open>\<open>ExecContext(ctx, deleteMigVersionSQL, version)\<close>: deleting no row is no error.\<close>

definition execDelete :: "int \<Rightarrow> 's db \<Rightarrow> string option \<times> 's db" where
  "execDelete version d =
     (case driverCall (EvDelete version) d of
        (Some e, d') \<Rightarrow> (Some e, d')
      | (None, d') \<Rightarrow> (None, d'\<lparr>ledger := removeAll version (ledger d')\<rparr>))"

text \<open>
  A transaction works on the state it was begun in. \<open>BeginTx\<close>, \<open>Commit\<close> and \<open>Rollback\<close>
  are calls to the driver; what a transaction wrote lasts only if \<open>Commit\<close> succeeds, which
  \<open>executeInTx\<close> below expresses by putting back the ledger and the schema it started from.
\<close>

definition BeginTx :: "'s db \<Rightarrow> string option \<times> 's db" where
  "BeginTx d = driverCall EvBeginTx d"

definition Commit :: "'s db \<Rightarrow> string option \<times> 's db" where
  "Commit d = driverCall EvCommit d"

definition Rollback :: "'s db \<Rightarrow> string option \<times> 's db" where
  "Rollback d = driverCall EvRollback d"

definition discardTx :: "'s db \<Rightarrow> 's db \<Rightarrow> 's db" where
  "discardTx begun d = d\<lparr>ledger := ledger begun, schema := schema begun\<rparr>"

section \<open>Ledger operations and executors (db.go)\<close>

text \<open>
  \<open>fmt.Errorf(msg + "%w", err)\<close> on a path where \<open>err\<close> came back from a call: a panic
  did not come back, it passes through.
\<close>

definition Errorf :: "string \<Rightarrow> error \<Rightarrow> error" where
  "Errorf msg err = (case err of RuntimePanic p \<Rightarrow> RuntimePanic p | _ \<Rightarrow> Wrap msg err [])"

definition isPanic :: "error \<Rightarrow> bool" where
  "isPanic err = (case err of RuntimePanic p \<Rightarrow> True | _ \<Rightarrow> False)"

definition nilDereference :: error where
  "nilDereference =
     RuntimePanic ''runtime error: invalid memory address or nil pointer dereference''"

definition getDBVersion :: "'s db \<Rightarrow> (error + int) \<times> 's db" where
  "getDBVersion d =
     (case queryDBVersion d of
        (Inl e, d') \<Rightarrow> (Inl (Wrap ''failed to get current DB version: '' (External e) []), d')
      | (Inr dbVersion, d') \<Rightarrow> (Inr dbVersion, d'))"

definition insertDBVersion :: "'s db \<Rightarrow> int \<Rightarrow> error option \<times> 's db" where
  "insertDBVersion d version =
     (case execInsert version d of
        (Some e, d') \<Rightarrow>
          (Some (Wrap (''failed to insert migration version '' @ show_int version @
                       '' into migrations table: '') (External e) []), d')
      | (None, d') \<Rightarrow> (None, d'))"

definition deleteDBVersion :: "'s db \<Rightarrow> int \<Rightarrow> error option \<times> 's db" where
  "deleteDBVersion d version =
     (case execDelete version d of
        (Some e, d') \<Rightarrow>
          (Some (Wrap (''failed to delete migration version '' @ show_int version @
                       '' from migrations table: '') (External e) []), d')
      | (None, d') \<Rightarrow> (None, d'))"

text \<open>
  \<open>executeInTx\<close>. A panic inside \<open>fn\<close> skips the rollback call (it is not deferred) and the
  transaction is never committed.
\<close>

definition executeInTx ::
  "'s db \<Rightarrow> ('s db \<Rightarrow> error option \<times> 's db) \<Rightarrow> error option \<times> 's db" where
  "executeInTx d fn =
     (case BeginTx d of
        (Some e, d1) \<Rightarrow> (Some (Wrap ''failed to begin transaction: '' (External e) []), d1)
      | (None, tx) \<Rightarrow>
          (case fn tx of
             (Some err, tx') \<Rightarrow>
               if isPanic err then (Some err, discardTx d tx')
               else (case Rollback tx' of
                       (_, d2) \<Rightarrow>
                         (Some (Wrap ''failed to execute in transaction: '' err []),
                          discardTx d d2))
           | (None, tx') \<Rightarrow>
               (case Commit tx' of
                  (Some e, d2) \<Rightarrow>
                    (Some (Wrap ''failed to commit transaction: '' (External e) []),
                     discardTx d d2)
                | (None, d2) \<Rightarrow> (None, d2))))"

definition executeNoTx ::
  "'s db \<Rightarrow> ('s db \<Rightarrow> error option \<times> 's db) \<Rightarrow> error option \<times> 's db" where
  "executeNoTx d fn =
     (case fn d of
        (Some err, d') \<Rightarrow> (Some (Errorf ''failed to execute without transaction: '' err), d')
      | (None, d') \<Rightarrow> (None, d'))"

section \<open>The guard and one migration step (cmd_up.go, cmd_down.go)\<close>

text \<open>
  \<open>runAction\<close> is the call \<open>up(migCtx, dbOrTX)\<close> or \<open>down(migCtx, dbOrTX)\<close> of an action that
  is not nil; calling a nil function panics.
\<close>

definition runAction :: "event \<Rightarrow> 's action \<Rightarrow> 's db \<Rightarrow> string option \<times> 's db" where
  "runAction ev act d =
     (case act (schema d) of
        (s', r) \<Rightarrow> (r, d\<lparr>schema := s', trace := trace d @ [ev]\<rparr>))"

definition migrateUp :: "int \<Rightarrow> 's action option \<Rightarrow> 's db \<Rightarrow> error option \<times> 's db" where
  "migrateUp version up d =
     (case getDBVersion d of
        (Inl err, d1) \<Rightarrow> (Some err, d1)
      | (Inr dbVersion, d1) \<Rightarrow>
          if version \<le> dbVersion then
            (Some (Wrap [] ErrDBVersionChangedUp
                     ('': migration version '' @ show_int version @
                      '' <= current DB version '' @ show_int dbVersion)), d1)
          else
            (case up of
               None \<Rightarrow> (Some nilDereference, d1)
             | Some act \<Rightarrow>
                 (case runAction (EvActionUp version) act d1 of
                    (Some e, d2) \<Rightarrow>
                      (Some (Wrap (''failed to apply migration.up version '' @
                                   show_int version @ '': '') (External e) []), d2)
                  | (None, d2) \<Rightarrow> insertDBVersion d2 version)))"

definition migrateDown :: "int \<Rightarrow> 's action option \<Rightarrow> 's db \<Rightarrow> error option \<times> 's db" where
  "migrateDown version down d =
     (case getDBVersion d of
        (Inl err, d1) \<Rightarrow> (Some err, d1)
      | (Inr dbVersion, d1) \<Rightarrow>
          if version > dbVersion then
            (Some (Wrap [] ErrDBVersionChangedDown
                     ('': migration version '' @ show_int version @
                      '' > current DB version '' @ show_int dbVersion)), d1)
          else
            (case down of
               None \<Rightarrow> (Some nilDereference, d1)
             | Some act \<Rightarrow>
                 (case runAction (EvActionDown version) act d1 of
                    (Some e, d2) \<Rightarrow>
                      (Some (Wrap (''failed to apply migration.down version '' @
                                   show_int version @ '': '') (External e) []), d2)
                  | (None, d2) \<Rightarrow> deleteDBVersion d2 version)))"

section \<open>The commands up, up-one and down (cmd_up.go, cmd_down.go)\<close>

text \<open>
  The output writer receives one line per write; a command returns the lines it wrote,
  without their final newline. \<open>nbAppliedMigrations\<close> counts elements of a slice and cannot
  overflow.
\<close>

text \<open>
  \<open>applyUp\<close> and \<open>applyDown\<close> are the \<open>if migration.UpDown != nil ... else ...\<close> of the two
  loops: the executor is chosen by the mode, and \<open>migration.UpDownNoTX.Up\<close> with neither
  mode set dereferences a nil pointer.
\<close>

definition applyUp :: "'s Migration \<Rightarrow> 's db \<Rightarrow> error option \<times> 's db" where
  "applyUp migration d =
     (case UpDown migration of
        Some ud \<Rightarrow>
          (case executeInTx d (migrateUp (Version migration) (Up ud)) of
             (Some err, d') \<Rightarrow> (Some (Errorf ''execute in TX: '' err), d')
           | (None, d') \<Rightarrow> (None, d'))
      | None \<Rightarrow>
          (case UpDownNoTX migration of
             None \<Rightarrow> (Some nilDereference, d)
           | Some ud \<Rightarrow>
               (case executeNoTx d (migrateUp (Version migration) (Up ud)) of
                  (Some err, d') \<Rightarrow> (Some (Errorf ''execute without TX: '' err), d')
                | (None, d') \<Rightarrow> (None, d'))))"

fun upLoop ::
  "int \<Rightarrow> int \<Rightarrow> 's Migration list \<Rightarrow> int \<Rightarrow> 's db \<Rightarrow> error option \<times> int \<times> 's db \<times> string list"
where
  "upLoop dbVersion limit [] nbAppliedMigrations d = (None, nbAppliedMigrations, d, [])"
| "upLoop dbVersion limit (migration # rest) nbAppliedMigrations d =
     (if Version migration \<le> dbVersion then upLoop dbVersion limit rest nbAppliedMigrations d
      else
        (case applyUp migration d of
           (Some err, d') \<Rightarrow> (Some err, nbAppliedMigrations, d', [])
         | (None, d') \<Rightarrow>
             (let line = ''[x] Applied migration version '' @ show_int (Version migration);
                  nb = nbAppliedMigrations + 1
              in if limit > 0 \<and> nb = limit then (None, nb, d', [line])
                 else (case upLoop dbVersion limit rest nb d' of
                         (r, nb', d'', out) \<Rightarrow> (r, nb', d'', line # out)))))"

definition runCmdUp ::
  "'s Migration list \<Rightarrow> 's db \<Rightarrow> int \<Rightarrow> error option \<times> 's db \<times> string list" where
  "runCmdUp migrations d limit =
     (let migrations = sortMigrationsAsc migrations
      in case getDBVersion d of
           (Inl err, d1) \<Rightarrow> (Some err, d1, [])
         | (Inr dbVersion, d1) \<Rightarrow>
             (case upLoop dbVersion limit migrations 0 d1 of
                (Some err, nb, d2, out) \<Rightarrow> (Some err, d2, out)
              | (None, nb, d2, out) \<Rightarrow>
                  if nb = 0 then (None, d2, out @ [''No migrations to apply''])
                  else (None, d2, out @ [show_int nb @ '' migration(s) applied''])))"

definition applyDown :: "'s Migration \<Rightarrow> 's db \<Rightarrow> error option \<times> 's db" where
  "applyDown migration d =
     (case UpDown migration of
        Some ud \<Rightarrow>
          (case executeInTx d (migrateDown (Version migration) (Down ud)) of
             (Some err, d') \<Rightarrow> (Some (Errorf ''execute in TX: '' err), d')
           | (None, d') \<Rightarrow> (None, d'))
      | None \<Rightarrow>
          (case UpDownNoTX migration of
             None \<Rightarrow> (Some nilDereference, d)
           | Some ud \<Rightarrow>
               (case executeNoTx d (migrateDown (Version migration) (Down ud)) of
                  (Some err, d') \<Rightarrow> (Some (Errorf ''execute without TX: '' err), d')
                | (None, d') \<Rightarrow> (None, d'))))"

text \<open>
  The loop of \<open>runCmdDown\<close> returns from inside its body at the first migration it does
  not skip: \<open>None\<close> is the loop running to its end.
\<close>

fun downLoop ::
  "int \<Rightarrow> 's Migration list \<Rightarrow> 's db \<Rightarrow> (error option \<times> 's db \<times> string list) option" where
  "downLoop dbVersion [] d = None"
| "downLoop dbVersion (migration # rest) d =
     (if Version migration > dbVersion then downLoop dbVersion rest d
      else
        (case applyDown migration d of
           (Some err, d') \<Rightarrow> Some (Some err, d', [])
         | (None, d') \<Rightarrow>
             Some (None, d',
                   [''[x]-->[ ] Rolled back migration version '' @
                    show_int (Version migration)])))"

definition runCmdDown ::
  "'s Migration list \<Rightarrow> 's db \<Rightarrow> error option \<times> 's db \<times> string list" where
  "runCmdDown migrations d =
     (let migrations = sortMigrationsDesc migrations
      in case getDBVersion d of
           (Inl err, d1) \<Rightarrow> (Some err, d1, [])
         | (Inr dbVersion, d1) \<Rightarrow>
             (case downLoop dbVersion migrations d1 of
                Some r \<Rightarrow> r
              | None \<Rightarrow> (None, d1, [''No migrations to roll back''])))"

section \<open>Construction of the tool (gosmig.go, config.go)\<close>

record Config =
  Timeout :: int

definition defaultTimeout :: int where
  "defaultTimeout = 10 * 1000000000"

definition DefaultConfig :: Config where
  "DefaultConfig = \<lparr>Timeout = defaultTimeout\<rparr>"

definition ensureDefaults :: "Config \<Rightarrow> Config" where
  "ensureDefaults c = (if Timeout c \<le> 0 then c\<lparr>Timeout := defaultTimeout\<rparr> else c)"

text \<open>
  \<open>newGosmig\<close> checks its arguments and validates the registry; it does not touch the
  database. The function it returns is represented by what it captures: the registry and
  the configuration. Nil arguments are \<open>None\<close>.
\<close>

record 's tool =
  toolMigrations :: "'s Migration list"
  toolConfig :: Config

definition newGosmig ::
  "(int \<Rightarrow> nat) \<Rightarrow> 's Migration list \<Rightarrow> 'c option \<Rightarrow>
   Config option \<Rightarrow> 'g option \<Rightarrow> 'x option \<Rightarrow> 'w option \<Rightarrow> 'w option \<Rightarrow> error + 's tool" where
  "newGosmig rank migrations connectToDB config getArgs osExit out errOut =
     (if length migrations = 0 then Inl (New ''no migrations provided'')
      else if connectToDB = None then Inl (New ''connectToDB function is nil'')
      else
        (let config = (case config of None \<Rightarrow> DefaultConfig | Some c \<Rightarrow> ensureDefaults c)
         in if getArgs = None then Inl (New ''getArgs function is nil'')
            else if osExit = None then Inl (New ''osExit function is nil'')
            else if out = None then Inl (New ''out writer is nil'')
            else if errOut = None then Inl (New ''errOut writer is nil'')
            else (case validateMigrations rank migrations of
                    Some err \<Rightarrow> Inl err
                  | None \<Rightarrow> Inr \<lparr>toolMigrations = migrations, toolConfig = config\<rparr>)))"

section \<open>What a run did\<close>

text \<open>
  The part of a trace that matters to the ledger and to the schema: the invocations of
  actions and the inserts and deletes sent to the ledger table.
\<close>

fun isEffect :: "event \<Rightarrow> bool" where
  "isEffect (EvActionUp v) = True"
| "isEffect (EvActionDown v) = True"
| "isEffect (EvInsert v) = True"
| "isEffect (EvDelete v) = True"
| "isEffect ev = False"

definition effects :: "event list \<Rightarrow> event list" where
  "effects evs = filter isEffect evs"

definition appliedLine :: "int \<Rightarrow> string" where
  "appliedLine v = ''[x] Applied migration version '' @ show_int v"

definition rolledBackLine :: "int \<Rightarrow> string" where
  "rolledBackLine v = ''[x]-->[ ] Rolled back migration version '' @ show_int v"

definition pending :: "int \<Rightarrow> 's Migration list \<Rightarrow> int list" where
  "pending dbVersion migrations = filter (\<lambda>v. dbVersion < v) (map Version migrations)"

section \<open>Example registries and databases\<close>

text \<open>
  Concrete inputs on which the theorems below are exercised. The schema is a counter
  of the changes made to it.
\<close>

definition stepUp :: "nat action" where
  "stepUp s = (s + 1, None)"

definition stepDown :: "nat action" where
  "stepDown s = (s - 1, None)"

definition brokenUp :: "nat action" where
  "brokenUp s = (s + 1, Some ''syntax error'')"

definition txMigration :: "int \<Rightarrow> nat Migration" where
  "txMigration v =
     \<lparr>Version = v, UpDown = Some \<lparr>Up = Some stepUp, Down = Some stepDown\<rparr>, UpDownNoTX = None\<rparr>"

definition noTxMigration :: "int \<Rightarrow> nat Migration" where
  "noTxMigration v =
     \<lparr>Version = v, UpDown = None, UpDownNoTX = Some \<lparr>Up = Some stepUp, Down = Some stepDown\<rparr>\<rparr>"

definition brokenMigration :: "int \<Rightarrow> nat Migration" where
  "brokenMigration v =
     \<lparr>Version = v, UpDown = Some \<lparr>Up = Some brokenUp, Down = Some stepDown\<rparr>, UpDownNoTX = None\<rparr>"

definition emptyMigration :: "int \<Rightarrow> nat Migration" where
  "emptyMigration v = \<lparr>Version = v, UpDown = None, UpDownNoTX = None\<rparr>"

definition freshDB :: "nat db" where
  "freshDB = \<lparr>ledger = [], schema = 0, faults = [], trace = []\<rparr>"

definition dbAt :: "int list \<Rightarrow> nat db" where
  "dbAt rows = \<lparr>ledger = rows, schema = length rows, faults = [], trace = []\<rparr>"

definition zeroAndDuplicate :: "nat Migration list" where
  "zeroAndDuplicate = [txMigration 0, txMigration 1, noTxMigration 1]"

definition threeMigrations :: "nat Migration list" where
  "threeMigrations = [txMigration 3, txMigration 1, noTxMigration 2]"

definition twoMigrations :: "nat Migration list" where
  "twoMigrations = [txMigration 1, txMigration 2]"

definition rollbackFailsDB :: "nat db" where
  "rollbackFailsDB =
     \<lparr>ledger = [], schema = 0, faults = [None, None, Some ''connection lost''], trace = []\<rparr>"

definition commitFailsDB :: "nat db" where
  "commitFailsDB =
     \<lparr>ledger = [], schema = 0, faults = [None, None, None, Some ''connection lost''], trace = []\<rparr>"

definition brokenSecond :: "nat Migration list" where
  "brokenSecond = [txMigration 1, brokenMigration 2, txMigration 3]"

definition bothModesMigration :: "int \<Rightarrow> nat Migration" where
  "bothModesMigration v =
     \<lparr>Version = v, UpDown = Some \<lparr>Up = None, Down = Some stepDown\<rparr>,
      UpDownNoTX = Some \<lparr>Up = Some stepUp, Down = Some stepDown\<rparr>\<rparr>"

definition missingUpMigration :: "int \<Rightarrow> nat Migration" where
  "missingUpMigration v =
     \<lparr>Version = v, UpDown = Some \<lparr>Up = None, Down = Some stepDown\<rparr>, UpDownNoTX = None\<rparr>"

definition missingDownNoTxMigration :: "int \<Rightarrow> nat Migration" where
  "missingDownNoTxMigration v =
     \<lparr>Version = v, UpDown = None, UpDownNoTX = Some \<lparr>Up = Some stepUp, Down = None\<rparr>\<rparr>"

section \<open>Validation of a registry\<close>

lemma incr_keys: "fst ` set (incr v cs) = insert v (fst ` set cs)"
  by (induction v cs rule: incr.induct) auto

lemma incr_distinct: "distinct (map fst cs) \<Longrightarrow> distinct (map fst (incr v cs))"
  by (induction v cs rule: incr.induct) (auto simp: incr_keys)

lemma incr_map_of:
  "map_of (incr v cs) = (map_of cs)(v \<mapsto> (case map_of cs v of None \<Rightarrow> 1 | Some c \<Rightarrow> c + 1))"
  by (induction v cs rule: incr.induct) (auto simp: fun_eq_iff)

lemma fold_incr_distinct: "distinct (map fst cs) \<Longrightarrow> distinct (map fst (fold incr vs cs))"
  by (induction vs arbitrary: cs) (auto simp: incr_distinct)

lemma fold_incr_map_of:
  "map_of (fold incr vs cs) v =
     (if v \<in> set vs
      then Some ((case map_of cs v of None \<Rightarrow> 0 | Some c \<Rightarrow> c) + int (count_list vs v))
      else map_of cs v)"
  by (induction vs arbitrary: cs) (auto simp: incr_map_of split: option.splits)

text \<open>After the first loop the map holds, for every version, how often it occurs.\<close>

lemma counters_mem:
  "(v, c) \<in> set (fold incr vs []) \<longleftrightarrow> v \<in> set vs \<and> c = int (count_list vs v)"
proof -
  have d: "distinct (map fst (fold incr vs []))" by (rule fold_incr_distinct) simp
  have "(v, c) \<in> set (fold incr vs []) \<longleftrightarrow> map_of (fold incr vs []) v = Some c"
    using d by simp
  also have "\<dots> \<longleftrightarrow> v \<in> set vs \<and> c = int (count_list vs v)"
    by (auto simp: fold_incr_map_of)
  finally show ?thesis .
qed

lemma firstLoop_fold:
  "fold (\<lambda>mig (counters, errs).
             (incr (Version mig) counters,
              (case validate mig of Some err \<Rightarrow> errs @ [Error err] | None \<Rightarrow> errs)))
          ms (cs, es) =
   (fold incr (map Version ms) cs, es @ map Error (List.map_filter validate ms))"
  by (induction ms arbitrary: cs es) (auto simp: List.map_filter_def split: option.splits)

lemma firstLoop_eq:
  "firstLoop ms = (fold incr (map Version ms) [], map Error (List.map_filter validate ms))"
  unfolding firstLoop_def by (simp add: firstLoop_fold)

lemma secondLoop_eq:
  "secondLoop entries errs =
     errs @ map (\<lambda>(v, c). dupMessage v c) (filter (\<lambda>(v, c). c > 1) entries)"
  unfolding secondLoop_def
  by (induction entries arbitrary: errs) auto

lemma set_rangeMap: "set (rangeMap rank cs) = set cs"
  by (simp add: rangeMap_def)

lemma migValidationErrs_eq:
  "migValidationErrs rank ms =
     map Error (List.map_filter validate ms) @
     map (\<lambda>(v, c). dupMessage v c)
         (filter (\<lambda>(v, c). c > 1) (rangeMap rank (fold incr (map Version ms) [])))"
  unfolding migValidationErrs_def firstLoop_eq by (simp add: secondLoop_eq)

lemma finding_of_invalid:
  assumes "m \<in> set ms" "validate m = Some e"
  shows "Error e \<in> set (migValidationErrs rank ms)"
proof -
  have "e \<in> set (List.map_filter validate ms)"
    using assms by (force simp: List.map_filter_def image_iff)
  then show ?thesis by (simp add: migValidationErrs_eq)
qed

lemma finding_of_dup:
  assumes "count_list (map Version ms) v > 1"
  shows "dupMessage v (int (count_list (map Version ms) v)) \<in> set (migValidationErrs rank ms)"
proof -
  have "v \<in> set (map Version ms)"
    using assms by (metis count_list_0_iff not_less_zero)
  then have "(v, int (count_list (map Version ms) v)) \<in> set (fold incr (map Version ms) [])"
    by (simp add: counters_mem)
  then have "(v, int (count_list (map Version ms) v)) \<in>
      set (filter (\<lambda>(v, c). c > 1) (rangeMap rank (fold incr (map Version ms) [])))"
    using assms by (simp add: set_rangeMap)
  then show ?thesis
    unfolding migValidationErrs_eq by force
qed

lemma findings_sound:
  assumes "f \<in> set (migValidationErrs rank ms)"
  shows "(\<exists>m\<in>set ms. \<exists>e. validate m = Some e \<and> f = Error e) \<or>
         (\<exists>v. count_list (map Version ms) v > 1 \<and>
              f = dupMessage v (int (count_list (map Version ms) v)))"
proof -
  from assms consider
    (a) "f \<in> Error ` set (List.map_filter validate ms)"
  | (b) "f \<in> (\<lambda>(v, c). dupMessage v c) `
           set (filter (\<lambda>(v, c). c > 1) (rangeMap rank (fold incr (map Version ms) [])))"
    unfolding migValidationErrs_eq by auto
  then show ?thesis
  proof cases
    case a
    then obtain m e where "m \<in> set ms" "validate m = Some e" "f = Error e"
      by (auto simp: List.map_filter_def)
    then show ?thesis by blast
  next
    case b
    then obtain v c where "f = dupMessage v c" "c > 1"
      "(v, c) \<in> set (fold incr (map Version ms) [])"
      by (auto simp: set_rangeMap)
    then show ?thesis by (auto simp: counters_mem)
  qed
qed

lemma distinct_iff_no_dup: "distinct xs \<longleftrightarrow> (\<forall>v. count_list xs v \<le> 1)"
proof
  assume "distinct xs"
  then show "\<forall>v. count_list xs v \<le> 1"
    by (metis count_mset distinct_count_atmost_1 le_numeral_extra(4) zero_le_one)
next
  assume a: "\<forall>v. count_list xs v \<le> 1"
  show "distinct xs"
    unfolding distinct_count_atmost_1
  proof (intro allI)
    fix v
    have "count_list xs v \<le> 1" using a by simp
    moreover have "v \<in> set xs \<longleftrightarrow> count_list xs v > 0"
      by (metis count_list_0_iff neq0_conv)
    ultimately show "count (mset xs) v = (if v \<in> set xs then 1 else 0)"
      by (auto simp: count_mset)
  qed
qed

lemma findings_empty_iff:
  "migValidationErrs rank ms = [] \<longleftrightarrow>
     (\<forall>m\<in>set ms. validate m = None) \<and> distinct (map Version ms)"
proof
  assume e: "migValidationErrs rank ms = []"
  have 1: "\<forall>m\<in>set ms. validate m = None"
  proof (rule ccontr)
    assume "\<not> (\<forall>m\<in>set ms. validate m = None)"
    then obtain m e' where "m \<in> set ms" "validate m = Some e'" by auto
    from finding_of_invalid[OF this, of rank] e show False by simp
  qed
  have 2: "distinct (map Version ms)"
    unfolding distinct_iff_no_dup
  proof (rule ccontr)
    assume "\<not> (\<forall>v. count_list (map Version ms) v \<le> 1)"
    then obtain v where "count_list (map Version ms) v > 1" by (auto simp: not_le)
    from finding_of_dup[OF this, of rank] e show False by simp
  qed
  from 1 2 show "(\<forall>m\<in>set ms. validate m = None) \<and> distinct (map Version ms)" by simp
next
  assume a: "(\<forall>m\<in>set ms. validate m = None) \<and> distinct (map Version ms)"
  show "migValidationErrs rank ms = []"
  proof (rule ccontr)
    assume "migValidationErrs rank ms \<noteq> []"
    then obtain f where "f \<in> set (migValidationErrs rank ms)"
      by (meson last_in_set)
    from findings_sound[OF this] consider
      (i) m e where "m \<in> set ms" "validate m = Some e"
    | (d) v where "count_list (map Version ms) v > 1"
      by blast
    then show False
    proof cases
      case i
      with a show False by auto
    next
      case d
      from a have "count_list (map Version ms) v \<le> 1"
        unfolding distinct_iff_no_dup by blast
      with d show False by simp
    qed
  qed
qed

lemma validateMigrations_None_iff:
  "validateMigrations rank ms = None \<longleftrightarrow>
     (\<forall>m\<in>set ms. validate m = None) \<and> distinct (map Version ms)"
  unfolding validateMigrations_def Let_def
  using findings_empty_iff[of rank ms] by auto

lemma sublist_Join: "f \<in> set fs \<Longrightarrow> sublist f (Join fs sep)"
proof (induction fs sep rule: Join.induct)
  case (1 sep)
  then show ?case by simp
next
  case (2 x sep)
  then show ?case by simp
next
  case (3 x y ys sep)
  show ?case
  proof (cases "f = x")
    case True
    then show ?thesis by (simp add: sublist_append_rightI)
  next
    case False
    with 3 have "sublist f (Join (y # ys) sep)" by simp
    then show ?thesis
      by (auto simp: sublist_def) (metis append.assoc)
  qed
qed

lemma validate_None_iff:
  "validate m = None \<longleftrightarrow>
     0 < Version m \<and>
     ((\<exists>ud. UpDown m = Some ud \<and> Up ud \<noteq> None \<and> Down ud \<noteq> None) \<and> UpDownNoTX m = None \<or>
      UpDown m = None \<and> (\<exists>ud. UpDownNoTX m = Some ud \<and> Up ud \<noteq> None \<and> Down ud \<noteq> None))"
  unfolding validate_def by (auto split: option.splits)

lemma reported_finding:
  assumes "f \<in> set (migValidationErrs rank ms)"
  shows "\<exists>msg. validateMigrations rank ms = Some (New msg) \<and> sublist f msg"
proof -
  from assms have ne: "length (migValidationErrs rank ms) > 0" by (cases "migValidationErrs rank ms") auto
  have "sublist f (Join (migValidationErrs rank ms) ''; '')"
    using assms by (rule sublist_Join)
  then have "sublist f (''invalid migration(s): '' @ Join (migValidationErrs rank ms) ''; '')"
    unfolding sublist_def by (metis append.assoc)
  moreover have "validateMigrations rank ms =
      Some (New (''invalid migration(s): '' @ Join (migValidationErrs rank ms) ''; ''))"
    using ne unfolding validateMigrations_def Let_def by simp
  ultimately show ?thesis by blast
qed

lemma validate_version:
  "Version m \<le> 0 \<Longrightarrow> validate m = Some (New ''migration version must be > 0'')"
  by (simp add: validate_def)

lemma validate_neither:
  "0 < Version m \<Longrightarrow> UpDown m = None \<Longrightarrow> UpDownNoTX m = None \<Longrightarrow>
   validate m = Some (New (''migration '' @ show_int (Version m) @
                           '' must have UpDown xor UpDownNoTX fields defined''))"
  by (simp add: validate_def)

lemma validate_both:
  "0 < Version m \<Longrightarrow> UpDown m \<noteq> None \<Longrightarrow> UpDownNoTX m \<noteq> None \<Longrightarrow>
   validate m = Some (New (''migration '' @ show_int (Version m) @
                           '' must have only one of UpDown or UpDownNoTX fields defined''))"
  by (simp add: validate_def)

lemma validate_tx_action:
  "0 < Version m \<Longrightarrow> UpDown m = Some ud \<Longrightarrow> UpDownNoTX m = None \<Longrightarrow>
   Up ud = None \<or> Down ud = None \<Longrightarrow>
   validate m = Some (New (''migration '' @ show_int (Version m) @
                           '' UpDown must have both Up and Down functions defined''))"
  by (auto simp: validate_def)

lemma validate_notx_action:
  "0 < Version m \<Longrightarrow> UpDown m = None \<Longrightarrow> UpDownNoTX m = Some ud \<Longrightarrow>
   Up ud = None \<or> Down ud = None \<Longrightarrow>
   validate m = Some (New (''migration '' @ show_int (Version m) @
                           '' UpDownNoTX must have both Up and Down functions defined''))"
  by (auto simp: validate_def)

lemma distinct_keys_rangeMap:
  "distinct (map fst (rangeMap rank (fold incr vs [])))"
proof -
  have d: "distinct (map fst (fold incr vs []))" by (rule fold_incr_distinct) simp
  have "mset (map fst (rangeMap rank (fold incr vs []))) = mset (map fst (fold incr vs []))"
    by (simp add: rangeMap_def)
  with d show ?thesis by (metis mset_eq_imp_distinct_iff)
qed

lemma duplicate_findings:
  "\<exists>ks. distinct ks \<and> set ks = {v. 1 < count_list (map Version ms) v} \<and>
        migValidationErrs rank ms =
          map Error (List.map_filter validate ms) @
          map (\<lambda>v. dupMessage v (int (count_list (map Version ms) v))) ks"
proof -
  let ?vs = "map Version ms"
  let ?E = "rangeMap rank (fold incr ?vs [])"
  let ?F = "filter (\<lambda>(v, c). c > 1) ?E"
  let ?ks = "map fst ?F"
  have mem: "(v, c) \<in> set ?E \<longleftrightarrow> v \<in> set ?vs \<and> c = int (count_list ?vs v)" for v c
    by (simp add: set_rangeMap counters_mem)
  have "distinct (map fst ?E)" by (rule distinct_keys_rangeMap)
  then have 1: "distinct ?ks" by (rule distinct_map_filter)
  have 2: "set ?ks = {v. 1 < count_list ?vs v}"
  proof (intro set_eqI iffI)
    fix v assume "v \<in> set ?ks"
    then obtain c where "(v, c) \<in> set ?E" "c > 1" by auto
    with mem show "v \<in> {v. 1 < count_list ?vs v}" by simp
  next
    fix v assume "v \<in> {v. 1 < count_list ?vs v}"
    then have c: "1 < count_list ?vs v" by simp
    then have "v \<in> set ?vs" by (metis count_list_0_iff not_less_zero)
    with mem have "(v, int (count_list ?vs v)) \<in> set ?E" by simp
    with c have "(v, int (count_list ?vs v)) \<in> set ?F" by simp
    then show "v \<in> set ?ks" by force
  qed
  have 3: "map (\<lambda>(v, c). dupMessage v c) ?F =
           map (\<lambda>v. dupMessage v (int (count_list ?vs v))) ?ks"
  proof -
    have "\<forall>p\<in>set ?F. (case p of (v, c) \<Rightarrow> dupMessage v c) =
             dupMessage (fst p) (int (count_list ?vs (fst p)))"
      using mem by auto
    then show ?thesis by (simp add: comp_def)
  qed
  from 1 2 3 show ?thesis
    unfolding migValidationErrs_eq by (intro exI[of _ ?ks]) simp
qed

lemma validateMigrations_exact:
  "\<exists>ks. distinct ks \<and> set ks = {v. 1 < count_list (map Version ms) v} \<and>
        validateMigrations rank ms =
          (let findings = map Error (List.map_filter validate ms) @
                 map (\<lambda>v. dupMessage v (int (count_list (map Version ms) v))) ks
           in if findings = [] then None
              else Some (New (''invalid migration(s): '' @ Join findings ''; '')))"
proof -
  from duplicate_findings[of ms rank] obtain ks where
    ks: "distinct ks" "set ks = {v. 1 < count_list (map Version ms) v}"
      "migValidationErrs rank ms =
          map Error (List.map_filter validate ms) @
          map (\<lambda>v. dupMessage v (int (count_list (map Version ms) v))) ks"
    by blast
  have "validateMigrations rank ms =
      (if migValidationErrs rank ms = [] then None
       else Some (New (''invalid migration(s): '' @ Join (migValidationErrs rank ms) ''; '')))"
    by (simp add: validateMigrations_def Let_def)
  with ks show ?thesis by (intro exI[of _ ks]) (simp add: Let_def)
qed

lemma validation_reports:
  "(Version m \<le> 0 \<longrightarrow> validate m = Some (New ''migration version must be > 0'')) \<and>
   (validate m = None \<longleftrightarrow>
      0 < Version m \<and>
      ((\<exists>ud. UpDown m = Some ud \<and> Up ud \<noteq> None \<and> Down ud \<noteq> None) \<and> UpDownNoTX m = None \<or>
       UpDown m = None \<and> (\<exists>ud. UpDownNoTX m = Some ud \<and> Up ud \<noteq> None \<and> Down ud \<noteq> None))) \<and>
   (validateMigrations rank ms = None \<longleftrightarrow>
      (\<forall>m\<in>set ms. validate m = None) \<and> distinct (map Version ms)) \<and>
   (\<forall>m\<in>set ms. \<forall>e. validate m = Some e \<longrightarrow>
      (\<exists>msg. validateMigrations rank ms = Some (New msg) \<and> sublist (Error e) msg)) \<and>
   (\<forall>v. count_list (map Version ms) v > 1 \<longrightarrow>
      (\<exists>msg. validateMigrations rank ms = Some (New msg) \<and>
             sublist (dupMessage v (int (count_list (map Version ms) v))) msg)) \<and>
   ((\<exists>m\<in>set ms. Version m = 0) \<and> \<not> distinct (map Version ms) \<longrightarrow>
      (\<exists>msg v n. validateMigrations rank ms = Some (New msg) \<and>
             sublist ''migration version must be > 0'' msg \<and>
             n > 1 \<and> sublist (dupMessage v n) msg))"
proof (intro conjI)
  show "Version m \<le> 0 \<longrightarrow> validate m = Some (New ''migration version must be > 0'')"
    by (simp add: validate_def)
  show "validate m = None \<longleftrightarrow>
      0 < Version m \<and>
      ((\<exists>ud. UpDown m = Some ud \<and> Up ud \<noteq> None \<and> Down ud \<noteq> None) \<and> UpDownNoTX m = None \<or>
       UpDown m = None \<and> (\<exists>ud. UpDownNoTX m = Some ud \<and> Up ud \<noteq> None \<and> Down ud \<noteq> None))"
    by (rule validate_None_iff)
  show "validateMigrations rank ms = None \<longleftrightarrow>
      (\<forall>m\<in>set ms. validate m = None) \<and> distinct (map Version ms)"
    by (rule validateMigrations_None_iff)
  show "\<forall>m\<in>set ms. \<forall>e. validate m = Some e \<longrightarrow>
      (\<exists>msg. validateMigrations rank ms = Some (New msg) \<and> sublist (Error e) msg)"
  proof (intro ballI allI impI)
    fix m e assume "m \<in> set ms" "validate m = Some e"
    then have "Error e \<in> set (migValidationErrs rank ms)" by (rule finding_of_invalid)
    then show "\<exists>msg. validateMigrations rank ms = Some (New msg) \<and> sublist (Error e) msg"
      by (rule reported_finding)
  qed
  show dup: "\<forall>v. count_list (map Version ms) v > 1 \<longrightarrow>
      (\<exists>msg. validateMigrations rank ms = Some (New msg) \<and>
             sublist (dupMessage v (int (count_list (map Version ms) v))) msg)"
  proof (intro allI impI)
    fix v assume "count_list (map Version ms) v > 1"
    then have "dupMessage v (int (count_list (map Version ms) v)) \<in> set (migValidationErrs rank ms)"
      by (rule finding_of_dup)
    then show "\<exists>msg. validateMigrations rank ms = Some (New msg) \<and>
             sublist (dupMessage v (int (count_list (map Version ms) v))) msg"
      by (rule reported_finding)
  qed
  show "(\<exists>m\<in>set ms. Version m = 0) \<and> \<not> distinct (map Version ms) \<longrightarrow>
      (\<exists>msg v n. validateMigrations rank ms = Some (New msg) \<and>
             sublist ''migration version must be > 0'' msg \<and>
             n > 1 \<and> sublist (dupMessage v n) msg)"
  proof
    assume a: "(\<exists>m\<in>set ms. Version m = 0) \<and> \<not> distinct (map Version ms)"
    then obtain m0 where m0: "m0 \<in> set ms" "Version m0 = 0" by blast
    then have "validate m0 = Some (New ''migration version must be > 0'')"
      by (simp add: validate_def)
    from finding_of_invalid[OF m0(1) this, of rank]
    have z: "''migration version must be > 0'' \<in> set (migValidationErrs rank ms)" by simp
    from a obtain v where v: "count_list (map Version ms) v > 1"
      unfolding distinct_iff_no_dup by (auto simp: not_le)
    let ?n = "int (count_list (map Version ms) v)"
    from finding_of_dup[OF v, of rank]
    have d: "dupMessage v ?n \<in> set (migValidationErrs rank ms)" .
    from reported_finding[OF z] obtain msg where
      msg: "validateMigrations rank ms = Some (New msg)" "sublist ''migration version must be > 0'' msg"
      by blast
    from reported_finding[OF d] msg(1) have "sublist (dupMessage v ?n) msg" by auto
    moreover have "?n > 1" using v by simp
    ultimately show "\<exists>msg v n. validateMigrations rank ms = Some (New msg) \<and>
             sublist ''migration version must be > 0'' msg \<and>
             n > 1 \<and> sublist (dupMessage v n) msg"
      using msg by blast
  qed
qed

text \<open>
  Claim C6, as amended. \<open>validate\<close> returns at the first defect of a migration, the
  checks coming in this order: version not positive; neither mode set; both modes set; the
  mode set lacks its up or its down action. So a migration yields one message at most
  (a version that is not positive is reported as such whatever else is wrong, both modes
  set is reported whatever actions are missing), and it validates exactly when it has none
  of these defects. \<open>validateMigrations\<close> goes through the whole registry: its findings are
  the messages of the migrations that do not validate, in the order of the registry,
  followed by one message, with the count, for every version that occurs more than once
  (these in the order in which the map is ranged over). With no finding there is no error;
  otherwise the findings are joined into the one error returned. In particular a registry
  with a zero version and a duplicated version gets one error that mentions both.
\<close>

theorem validateMigrations_aggregates:
  "(Version m \<le> 0 \<longrightarrow> validate m = Some (New ''migration version must be > 0'')) \<and>
   (0 < Version m \<and> UpDown m = None \<and> UpDownNoTX m = None \<longrightarrow>
      validate m = Some (New (''migration '' @ show_int (Version m) @
                              '' must have UpDown xor UpDownNoTX fields defined''))) \<and>
   (0 < Version m \<and> UpDown m \<noteq> None \<and> UpDownNoTX m \<noteq> None \<longrightarrow>
      validate m = Some (New (''migration '' @ show_int (Version m) @
                              '' must have only one of UpDown or UpDownNoTX fields defined''))) \<and>
   (0 < Version m \<and> UpDown m = Some ud \<and> UpDownNoTX m = None \<and>
    (Up ud = None \<or> Down ud = None) \<longrightarrow>
      validate m = Some (New (''migration '' @ show_int (Version m) @
                              '' UpDown must have both Up and Down functions defined''))) \<and>
   (0 < Version m \<and> UpDown m = None \<and> UpDownNoTX m = Some ud \<and>
    (Up ud = None \<or> Down ud = None) \<longrightarrow>
      validate m = Some (New (''migration '' @ show_int (Version m) @
                              '' UpDownNoTX must have both Up and Down functions defined''))) \<and>
   (\<exists>ks. distinct ks \<and> set ks = {v. 1 < count_list (map Version ms) v} \<and>
      validateMigrations rank ms =
        (let findings = map Error (List.map_filter validate ms) @
               map (\<lambda>v. dupMessage v (int (count_list (map Version ms) v))) ks
         in if findings = [] then None
            else Some (New (''invalid migration(s): '' @ Join findings ''; '')))) \<and>
   (validate m = None \<longleftrightarrow>
      0 < Version m \<and>
      ((\<exists>ud. UpDown m = Some ud \<and> Up ud \<noteq> None \<and> Down ud \<noteq> None) \<and> UpDownNoTX m = None \<or>
       UpDown m = None \<and> (\<exists>ud. UpDownNoTX m = Some ud \<and> Up ud \<noteq> None \<and> Down ud \<noteq> None))) \<and>
   (validateMigrations rank ms = None \<longleftrightarrow>
      (\<forall>m\<in>set ms. validate m = None) \<and> distinct (map Version ms)) \<and>
   (\<forall>m\<in>set ms. \<forall>e. validate m = Some e \<longrightarrow>
      (\<exists>msg. validateMigrations rank ms = Some (New msg) \<and> sublist (Error e) msg)) \<and>
   (\<forall>v. count_list (map Version ms) v > 1 \<longrightarrow>
      (\<exists>msg. validateMigrations rank ms = Some (New msg) \<and>
             sublist (dupMessage v (int (count_list (map Version ms) v))) msg)) \<and>
   ((\<exists>m\<in>set ms. Version m = 0) \<and> \<not> distinct (map Version ms) \<longrightarrow>
      (\<exists>msg v n. validateMigrations rank ms = Some (New msg) \<and>
             sublist ''migration version must be > 0'' msg \<and>
             n > 1 \<and> sublist (dupMessage v n) msg))"
proof -
  have c2: "0 < Version m \<and> UpDown m = None \<and> UpDownNoTX m = None \<longrightarrow>
      validate m = Some (New (''migration '' @ show_int (Version m) @
                              '' must have UpDown xor UpDownNoTX fields defined''))"
    using validate_neither[of m] by blast
  have c3: "0 < Version m \<and> UpDown m \<noteq> None \<and> UpDownNoTX m \<noteq> None \<longrightarrow>
      validate m = Some (New (''migration '' @ show_int (Version m) @
                              '' must have only one of UpDown or UpDownNoTX fields defined''))"
    using validate_both[of m] by blast
  have c4: "0 < Version m \<and> UpDown m = Some ud \<and> UpDownNoTX m = None \<and>
    (Up ud = None \<or> Down ud = None) \<longrightarrow>
      validate m = Some (New (''migration '' @ show_int (Version m) @
                              '' UpDown must have both Up and Down functions defined''))"
    using validate_tx_action[of m ud] by blast
  have c5: "0 < Version m \<and> UpDown m = None \<and> UpDownNoTX m = Some ud \<and>
    (Up ud = None \<or> Down ud = None) \<longrightarrow>
      validate m = Some (New (''migration '' @ show_int (Version m) @
                              '' UpDownNoTX must have both Up and Down functions defined''))"
    using validate_notx_action[of m ud] by blast
  note c6 = validateMigrations_exact[of ms rank]
  note old = validation_reports[of m rank ms]
  from c2 c3 c4 c5 c6 old show ?thesis
    by (elim conjE, intro conjI) assumption+
qed

theorem validateMigrations_aggregates_witness:
  "validate (emptyMigration 0) = Some (New ''migration version must be > 0'') \<and>
   validate (emptyMigration 1) =
     Some (New ''migration 1 must have UpDown xor UpDownNoTX fields defined'') \<and>
   validate (bothModesMigration 2) =
     Some (New ''migration 2 must have only one of UpDown or UpDownNoTX fields defined'') \<and>
   validate (missingUpMigration 3) =
     Some (New ''migration 3 UpDown must have both Up and Down functions defined'') \<and>
   validate (missingDownNoTxMigration 4) =
     Some (New ''migration 4 UpDownNoTX must have both Up and Down functions defined'') \<and>
   validateMigrations nat zeroAndDuplicate =
     Some (New ''invalid migration(s): migration version must be > 0; migration version 1 is defined 2 times'') \<and>
   (\<exists>msg v n. validateMigrations nat zeroAndDuplicate = Some (New msg) \<and>
       sublist ''migration version must be > 0'' msg \<and> n > 1 \<and> sublist (dupMessage v n) msg)"
proof -
  let ?txu = "\<lparr>Up = None, Down = Some stepDown\<rparr> :: nat UpDown"
  let ?ntd = "\<lparr>Up = Some stepUp, Down = None\<rparr> :: nat UpDown"
  have n: "show_int 1 = ''1''" "show_int 2 = ''2''" "show_int 3 = ''3''" "show_int 4 = ''4''"
    by code_simp+
  have h1: "Version (emptyMigration 0) \<le> 0" by (simp add: emptyMigration_def)
  have 1: "validate (emptyMigration 0) = Some (New ''migration version must be > 0'')"
    using validateMigrations_aggregates [where m = "emptyMigration 0" and ud = ?txu
        and ms = zeroAndDuplicate and rank = nat, THEN conjunct1, THEN mp, OF h1] .
  have h2: "0 < Version (emptyMigration 1) \<and> UpDown (emptyMigration 1) = None \<and>
            UpDownNoTX (emptyMigration 1) = None"
    by (simp add: emptyMigration_def)
  have 2: "validate (emptyMigration 1) =
     Some (New ''migration 1 must have UpDown xor UpDownNoTX fields defined'')"
    using validateMigrations_aggregates [where m = "emptyMigration 1" and ud = ?txu
        and ms = zeroAndDuplicate and rank = nat, THEN conjunct2, THEN conjunct1, THEN mp, OF h2]
    by (simp add: emptyMigration_def n)
  have h3: "0 < Version (bothModesMigration 2) \<and> UpDown (bothModesMigration 2) \<noteq> None \<and>
            UpDownNoTX (bothModesMigration 2) \<noteq> None"
    by (simp add: bothModesMigration_def)
  have 3: "validate (bothModesMigration 2) =
     Some (New ''migration 2 must have only one of UpDown or UpDownNoTX fields defined'')"
    using validateMigrations_aggregates [where m = "bothModesMigration 2" and ud = ?txu
        and ms = zeroAndDuplicate and rank = nat,
        THEN conjunct2, THEN conjunct2, THEN conjunct1, THEN mp, OF h3]
    by (simp add: bothModesMigration_def n)
  have h4: "0 < Version (missingUpMigration 3) \<and> UpDown (missingUpMigration 3) = Some ?txu \<and>
            UpDownNoTX (missingUpMigration 3) = None \<and> (Up ?txu = None \<or> Down ?txu = None)"
    by (simp add: missingUpMigration_def)
  have 4: "validate (missingUpMigration 3) =
     Some (New ''migration 3 UpDown must have both Up and Down functions defined'')"
    using validateMigrations_aggregates [where m = "missingUpMigration 3" and ud = ?txu
        and ms = zeroAndDuplicate and rank = nat,
        THEN conjunct2, THEN conjunct2, THEN conjunct2, THEN conjunct1, THEN mp, OF h4]
    by (simp add: missingUpMigration_def n)
  have h5: "0 < Version (missingDownNoTxMigration 4) \<and>
            UpDown (missingDownNoTxMigration 4) = None \<and>
            UpDownNoTX (missingDownNoTxMigration 4) = Some ?ntd \<and>
            (Up ?ntd = None \<or> Down ?ntd = None)"
    by (simp add: missingDownNoTxMigration_def)
  have 5: "validate (missingDownNoTxMigration 4) =
     Some (New ''migration 4 UpDownNoTX must have both Up and Down functions defined'')"
    using validateMigrations_aggregates [where m = "missingDownNoTxMigration 4" and ud = ?ntd
        and ms = zeroAndDuplicate and rank = nat,
        THEN conjunct2, THEN conjunct2, THEN conjunct2, THEN conjunct2, THEN conjunct1,
        THEN mp, OF h5]
    by (simp add: missingDownNoTxMigration_def n)
  have 6: "validateMigrations nat zeroAndDuplicate =
     Some (New ''invalid migration(s): migration version must be > 0; migration version 1 is defined 2 times'')"
    by code_simp
  have h7: "(\<exists>m\<in>set zeroAndDuplicate. Version m = 0) \<and>
            \<not> distinct (map Version zeroAndDuplicate)"
    by (simp add: txMigration_def noTxMigration_def zeroAndDuplicate_def)
  have 7: "\<exists>msg v n. validateMigrations nat zeroAndDuplicate = Some (New msg) \<and>
       sublist ''migration version must be > 0'' msg \<and> n > 1 \<and> sublist (dupMessage v n) msg"
    using validateMigrations_aggregates [where m = "emptyMigration 0" and ud = ?txu
        and ms = zeroAndDuplicate and rank = nat,
        THEN conjunct2, THEN conjunct2, THEN conjunct2, THEN conjunct2, THEN conjunct2,
        THEN conjunct2, THEN conjunct2, THEN conjunct2, THEN conjunct2, THEN conjunct2,
        THEN mp, OF h7] .
  from 1 2 3 4 5 6 7 show ?thesis by (intro conjI)
qed

text \<open>
  Claim C6 as stated fails: a migration with version 0 and neither mode set has two of the
  listed defects, and the error mentions only the first.
\<close>

theorem validate_stops_at_first_defect:
  "Version (emptyMigration 0) \<le> 0 \<and>
   UpDown (emptyMigration 0) = None \<and> UpDownNoTX (emptyMigration 0) = None \<and>
   validateMigrations nat [emptyMigration 0] =
     Some (New ''invalid migration(s): migration version must be > 0'') \<and>
   \<not> sublist ''must have UpDown xor UpDownNoTX fields defined''
       ''invalid migration(s): migration version must be > 0''"
proof -
  have "validateMigrations nat [emptyMigration 0] =
     Some (New ''invalid migration(s): migration version must be > 0'')"
    by code_simp
  moreover have "\<not> sublist ''must have UpDown xor UpDownNoTX fields defined''
       ''invalid migration(s): migration version must be > 0''"
    by (simp add: sublist_Cons_right)
  ultimately show ?thesis by (simp add: emptyMigration_def)
qed

section \<open>Construction of the tool\<close>

text \<open>
  Claim C10. With an empty slice of migrations \<open>newGosmig\<close> returns the error
  "no migrations provided", whatever its other arguments are, from its first check:
  before the registry is validated and without any call to the database. Yet
  \<open>validateMigrations\<close> finds nothing wrong with an empty slice.
\<close>

theorem newGosmig_rejects_empty:
  "newGosmig rank [] connectToDB config getArgs osExit out errOut =
     Inl (New ''no migrations provided'') \<and>
   validateMigrations rank [] = None"
  by (simp add: newGosmig_def validateMigrations_None_iff)

section \<open>Sorting a registry\<close>

text \<open>
  Whatever the comparison function, the model of \<open>slices.SortFunc\<close> permutes its argument;
  when the comparison function agrees with a key, the result is sorted by that key, and
  when moreover the keys are distinct it is the only sorted permutation there is.
\<close>

lemma mset_insertFunc: "mset (insertFunc cmp x ys) = add_mset x (mset ys)"
  by (induction ys) auto

lemma mset_fold_insertFunc: "mset (fold (insertFunc cmp) xs acc) = mset xs + mset acc"
  by (induction xs arbitrary: acc) (auto simp: mset_insertFunc)

lemma mset_SortFunc: "mset (SortFunc xs cmp) = mset xs"
  unfolding SortFunc_def by (simp add: mset_fold_insertFunc)

lemma set_insertFunc: "set (insertFunc cmp x ys) = insert x (set ys)"
  by (metis mset_insertFunc set_mset_add_mset_insert set_mset_mset)

lemma set_SortFunc: "set (SortFunc xs cmp) = set xs"
  by (metis mset_SortFunc set_mset_mset)

lemma sorted_insertFunc:
  fixes f :: "'a \<Rightarrow> 'b::linorder"
  assumes "\<forall>y\<in>set rs. (cmp x y < 0) = (f x < f y)" "sorted_wrt (\<lambda>a b. f b \<le> f a) rs"
  shows "sorted_wrt (\<lambda>a b. f b \<le> f a) (insertFunc cmp x rs)"
  using assms
proof (induction rs)
  case Nil
  then show ?case by simp
next
  case (Cons y ys)
  show ?case
  proof (cases "cmp x y < 0")
    case True
    with Cons.prems have xy: "f x < f y" by simp
    have "sorted_wrt (\<lambda>a b. f b \<le> f a) (insertFunc cmp x ys)"
      using Cons by simp
    with Cons.prems xy True show ?thesis
      by (auto simp: set_insertFunc less_imp_le)
  next
    case False
    with Cons.prems have yx: "f y \<le> f x" by (simp add: not_less)
    with Cons.prems False show ?thesis by auto
  qed
qed

lemma sorted_fold_insertFunc:
  fixes f :: "'a \<Rightarrow> 'b::linorder"
  assumes "\<forall>a\<in>set xs \<union> set acc. \<forall>b\<in>set xs \<union> set acc. (cmp a b < 0) = (f a < f b)"
    and "sorted_wrt (\<lambda>a b. f b \<le> f a) acc"
  shows "sorted_wrt (\<lambda>a b. f b \<le> f a) (fold (insertFunc cmp) xs acc)"
  using assms
proof (induction xs arbitrary: acc)
  case Nil
  then show ?case by simp
next
  case (Cons x xs)
  have 1: "sorted_wrt (\<lambda>a b. f b \<le> f a) (insertFunc cmp x acc)"
    using Cons.prems by (intro sorted_insertFunc) auto
  have 2: "\<forall>a\<in>set xs \<union> set (insertFunc cmp x acc).
             \<forall>b\<in>set xs \<union> set (insertFunc cmp x acc). (cmp a b < 0) = (f a < f b)"
    using Cons.prems(1) by (auto simp: set_insertFunc)
  from Cons.IH[OF 2 1] show ?case by simp
qed

lemma sorted_SortFunc:
  assumes "\<forall>a\<in>set xs. \<forall>b\<in>set xs. (cmp a b < 0) = (f a < f b)"
  shows "sorted (map f (SortFunc xs cmp))"
proof -
  have "sorted_wrt (\<lambda>a b. f b \<le> f a) (fold (insertFunc cmp) xs [])"
    using assms by (intro sorted_fold_insertFunc) auto
  then have "sorted_wrt (\<lambda>a b. f a \<le> f b) (rev (fold (insertFunc cmp) xs []))"
    by (simp add: sorted_wrt_rev)
  then show ?thesis by (simp add: SortFunc_def sorted_map)
qed

lemma filter_key_distinct:
  "distinct (map f xs) \<Longrightarrow> k \<in> set xs \<Longrightarrow> filter (\<lambda>x. f k = f x) xs = [k]"
proof (induction xs)
  case Nil
  then show ?case by simp
next
  case (Cons x xs)
  show ?case
  proof (cases "k = x")
    case True
    have "filter (\<lambda>y. f x = f y) xs = []"
      using Cons.prems by (auto simp: filter_empty_conv)
    with True show ?thesis by simp
  next
    case False
    with Cons.prems have k: "k \<in> set xs" by auto
    have nx: "f x \<notin> f ` set xs" using Cons.prems by simp
    have "f k \<noteq> f x" using nx k by (metis imageI)
    with k Cons show ?thesis by simp
  qed
qed

lemma sorted_distinct_unique:
  assumes "mset ys = mset xs" "distinct (map f xs)" "sorted (map f ys)"
  shows "sort_key f xs = ys"
proof (rule properties_for_sort_key)
  show "mset ys = mset xs" by fact
  show "sorted (map f ys)" by fact
  fix k assume k: "k \<in> set ys"
  have "mset (map f ys) = mset (map f xs)" using assms(1) by simp
  then have d: "distinct (map f ys)" using assms(2)
    by (metis distinct_count_atmost_1 set_mset_mset)
  have "k \<in> set xs" using k assms(1) by (metis set_mset_mset)
  then show "filter (\<lambda>x. f k = f x) ys = filter (\<lambda>x. f k = f x) xs"
    using filter_key_distinct[OF d k] filter_key_distinct[OF assms(2)] by simp
qed

lemma SortFunc_eq_sort_key:
  assumes "\<forall>a\<in>set xs. \<forall>b\<in>set xs. (cmp a b < 0) = (f a < f b)" "distinct (map f xs)"
  shows "SortFunc xs cmp = sort_key f xs"
  using sorted_distinct_unique[OF mset_SortFunc assms(2) sorted_SortFunc[OF assms(1)]]
  by simp

lemma subInt_exact:
  assumes "0 < a" "a < 2 ^ 63" "0 < b" "b < 2 ^ 63"
  shows "subInt a b = a - b"
  unfolding subInt_def using assms by (intro signed_take_bit_int_eq_self) auto

lemma sortMigrationsAsc_eq:
  assumes "\<forall>m\<in>set ms. 0 < Version m \<and> Version m < 2 ^ 63" "distinct (map Version ms)"
  shows "sortMigrationsAsc ms = sort_key Version ms"
  unfolding sortMigrationsAsc_def
  using assms by (intro SortFunc_eq_sort_key) (auto simp: subInt_exact)

lemma sort_key_uminus:
  assumes "distinct (map Version ms)"
  shows "sort_key (\<lambda>m. - Version m) ms = rev (sort_key Version ms)"
proof (rule sorted_distinct_unique)
  show "mset (rev (sort_key Version ms)) = mset ms" by simp
  show "distinct (map (\<lambda>m. - Version m) ms)"
    using assms by (simp add: distinct_map inj_on_def)
  have "sorted (map Version (sort_key Version ms))" by simp
  then have "sorted_wrt (\<lambda>x y. Version x \<le> Version y) (sort_key Version ms)"
    by (simp only: sorted_map)
  then have "sorted_wrt (\<lambda>x y. - Version x \<le> - Version y) (rev (sort_key Version ms))"
    by (simp add: sorted_wrt_rev)
  then show "sorted (map (\<lambda>m. - Version m) (rev (sort_key Version ms)))"
    by (simp only: sorted_map)
qed

lemma sortMigrationsDesc_eq:
  assumes "\<forall>m\<in>set ms. 0 < Version m \<and> Version m < 2 ^ 63" "distinct (map Version ms)"
  shows "sortMigrationsDesc ms = rev (sort_key Version ms)"
proof -
  have "sortMigrationsDesc ms = sort_key (\<lambda>m. - Version m) ms"
    unfolding sortMigrationsDesc_def
    using assms by (intro SortFunc_eq_sort_key) (auto simp: subInt_exact distinct_map inj_on_def)
  then show ?thesis using assms(2) by (simp add: sort_key_uminus)
qed

lemma validate_positive: "validate m = None \<Longrightarrow> 0 < Version m"
  by (simp add: validate_None_iff)

text \<open>
  Claim C8. For every valid registry (one that \<open>validateMigrations\<close> accepts, so that its
  versions are positive and distinct) sorting the migrations descending gives exactly the
  reverse of sorting them ascending, and both results hold the same versions as the
  input; the ascending result is a permutation of the input in increasing order of
  version. Versions are values of Go's \<open>int\<close>.
\<close>

theorem sorts_are_reverses:
  assumes "validateMigrations rank ms = None" and "\<forall>m\<in>set ms. goInt (Version m)"
  shows "sortMigrationsDesc ms = rev (sortMigrationsAsc ms) \<and>
         Version ` set (sortMigrationsAsc ms) = Version ` set ms \<and>
         Version ` set (sortMigrationsDesc ms) = Version ` set ms \<and>
         mset (sortMigrationsAsc ms) = mset ms \<and>
         sorted (map Version (sortMigrationsAsc ms))"
proof -
  from assms(1) have v: "\<forall>m\<in>set ms. validate m = None" and d: "distinct (map Version ms)"
    by (simp_all add: validateMigrations_None_iff)
  have r: "\<forall>m\<in>set ms. 0 < Version m \<and> Version m < 2 ^ 63"
    using v assms(2) by (auto simp: goInt_def dest: validate_positive)
  have asc: "sortMigrationsAsc ms = sort_key Version ms"
    using r d by (rule sortMigrationsAsc_eq)
  have desc: "sortMigrationsDesc ms = rev (sort_key Version ms)"
    using r d by (rule sortMigrationsDesc_eq)
  show ?thesis by (simp add: asc desc)
qed

theorem sorts_are_reverses_witness:
  "validateMigrations nat threeMigrations = None \<and>
   map Version (sortMigrationsAsc threeMigrations) = [1, 2, 3] \<and>
   map Version (sortMigrationsDesc threeMigrations) = [3, 2, 1] \<and>
   sortMigrationsDesc threeMigrations = rev (sortMigrationsAsc threeMigrations)"
proof -
  have v: "validateMigrations nat threeMigrations = None"
    by (simp add: validateMigrations_None_iff validate_def threeMigrations_def
        txMigration_def noTxMigration_def)
  have g: "\<forall>m\<in>set threeMigrations. goInt (Version m)"
    by (simp add: goInt_def threeMigrations_def txMigration_def noTxMigration_def)
  have a: "map Version (sortMigrationsAsc threeMigrations) = [1, 2, 3]"
    by (simp add: sortMigrationsAsc_def SortFunc_def subInt_def threeMigrations_def
        txMigration_def noTxMigration_def)
  have b: "map Version (sortMigrationsDesc threeMigrations) = [3, 2, 1]"
    by (simp add: sortMigrationsDesc_def SortFunc_def subInt_def threeMigrations_def
        txMigration_def noTxMigration_def)
  from sorts_are_reverses [OF v g] v a b show ?thesis by simp
qed

section \<open>Reading the ledger\<close>

lemma getDBVersion_cases:
  "getDBVersion d =
     (case faults d of
        Some e # fs \<Rightarrow>
          (Inl (Wrap ''failed to get current DB version: '' (External e) []),
           d\<lparr>faults := fs, trace := trace d @ [EvQueryVersion]\<rparr>)
      | _ \<Rightarrow> (Inr (selectDBVersion (ledger d)),
               d\<lparr>faults := tl (faults d), trace := trace d @ [EvQueryVersion]\<rparr>))"
  by (cases d) (auto simp: getDBVersion_def queryDBVersion_def driverCall_def
      split: list.splits option.splits)

lemma getDBVersion_Inr:
  assumes "getDBVersion d = (Inr r, d1)"
  shows "r = selectDBVersion (ledger d) \<and>
         d1 = d\<lparr>faults := tl (faults d), trace := trace d @ [EvQueryVersion]\<rparr>"
  using assms unfolding getDBVersion_cases
  by (auto split: list.splits option.splits)

section \<open>The command up\<close>

lemma set_sortMigrationsAsc: "set (sortMigrationsAsc ms) = set ms"
  by (simp add: sortMigrationsAsc_def set_SortFunc)

lemma set_sortMigrationsDesc: "set (sortMigrationsDesc ms) = set ms"
  by (simp add: sortMigrationsDesc_def set_SortFunc)

lemma upLoop_nothing_pending:
  "\<forall>m\<in>set ms. Version m \<le> dbVersion \<Longrightarrow> upLoop dbVersion limit ms nb d = (None, nb, d, [])"
  by (induction ms) auto

text \<open>
  Claim C7. When the ledger's current version is \<open>V\<close> and every version of the registry
  is at most \<open>V\<close>, apply-all reads the version once and does nothing else: no action runs,
  nothing is inserted into or deleted from the ledger, ledger and schema are as before,
  and the only line written is "No migrations to apply" (no count of applied
  migrations).
\<close>

theorem apply_all_nothing_pending:
  assumes "getDBVersion d = (Inr V, d1)" and "\<forall>m\<in>set ms. Version m \<le> V"
  shows "runCmdUp ms d 0 = (None, d1, [''No migrations to apply'']) \<and>
         ledger d1 = ledger d \<and> schema d1 = schema d \<and>
         trace d1 = trace d @ [EvQueryVersion]"
proof -
  have "upLoop V 0 (sortMigrationsAsc ms) 0 d1 = (None, 0, d1, [])"
    using assms(2) by (intro upLoop_nothing_pending) (simp add: set_sortMigrationsAsc)
  then have "runCmdUp ms d 0 = (None, d1, [''No migrations to apply''])"
    using assms(1) by (simp add: runCmdUp_def)
  moreover from getDBVersion_Inr[OF assms(1)]
  have "ledger d1 = ledger d \<and> schema d1 = schema d \<and> trace d1 = trace d @ [EvQueryVersion]"
    by simp
  ultimately show ?thesis by simp
qed

theorem apply_all_nothing_pending_witness:
  "runCmdUp threeMigrations (dbAt [1, 2, 3]) 0 =
     (None, \<lparr>ledger = [1, 2, 3], schema = 3, faults = [], trace = [EvQueryVersion]\<rparr>,
      [''No migrations to apply''])"
proof -
  have r: "getDBVersion (dbAt [1, 2, 3]) =
      (Inr 3, \<lparr>ledger = [1, 2, 3], schema = 3, faults = [], trace = [EvQueryVersion]\<rparr>)"
    by (simp add: getDBVersion_cases dbAt_def selectDBVersion_def)
  have a: "\<forall>m\<in>set threeMigrations. Version m \<le> 3"
    by (simp add: threeMigrations_def txMigration_def noTxMigration_def)
  from apply_all_nothing_pending [OF r a] show ?thesis by simp
qed

lemma upLoop_negative_limit:
  "limit < 0 \<Longrightarrow> upLoop dbVersion limit ms nb d = upLoop dbVersion 0 ms nb d"
  by (induction ms arbitrary: nb d) (auto split: prod.splits option.splits)

text \<open>
  Claim C9. A negative limit behaves exactly as the limit 0: the test that stops the loop
  needs \<open>limit > 0\<close>, so with a negative limit every pending migration is applied.
\<close>

theorem negative_limit_is_unlimited:
  assumes "limit < 0"
  shows "runCmdUp ms d limit = runCmdUp ms d 0"
  unfolding runCmdUp_def by (simp only: upLoop_negative_limit [OF assms])

theorem negative_limit_is_unlimited_witness:
  "runCmdUp threeMigrations freshDB (- 1) =
     (None,
      \<lparr>ledger = [1, 2, 3], schema = 3, faults = [],
       trace = [EvQueryVersion, EvBeginTx, EvQueryVersion, EvActionUp 1, EvInsert 1, EvCommit,
                EvQueryVersion, EvActionUp 2, EvInsert 2,
                EvBeginTx, EvQueryVersion, EvActionUp 3, EvInsert 3, EvCommit]\<rparr>,
      [''[x] Applied migration version 1'', ''[x] Applied migration version 2'',
       ''[x] Applied migration version 3'', ''3 migration(s) applied''])"
proof -
  have "runCmdUp threeMigrations freshDB 0 =
     (None,
      \<lparr>ledger = [1, 2, 3], schema = 3, faults = [],
       trace = [EvQueryVersion, EvBeginTx, EvQueryVersion, EvActionUp 1, EvInsert 1, EvCommit,
                EvQueryVersion, EvActionUp 2, EvInsert 2,
                EvBeginTx, EvQueryVersion, EvActionUp 3, EvInsert 3, EvCommit]\<rparr>,
      [''[x] Applied migration version 1'', ''[x] Applied migration version 2'',
       ''[x] Applied migration version 3'', ''3 migration(s) applied''])"
    by code_simp
  moreover have "(- 1 :: int) < 0" by simp
  ultimately show ?thesis
    using negative_limit_is_unlimited [of "- 1" threeMigrations freshDB] by simp
qed

section \<open>Ledger operations and the guard\<close>

lemma driverCall_frame:
  assumes "driverCall ev d = (r, d')"
  shows "ledger d' = ledger d \<and> schema d' = schema d \<and> trace d' = trace d @ [ev]"
  using assms by (auto simp: driverCall_def split: list.splits)

lemma insertDBVersion_None:
  assumes "insertDBVersion d v = (None, d')"
  shows "ledger d' = ledger d @ [v] \<and> schema d' = schema d \<and> trace d' = trace d @ [EvInsert v]"
  using assms
  by (auto simp: insertDBVersion_def execInsert_def split: prod.splits option.splits if_splits
      dest: driverCall_frame)

lemma insertDBVersion_Some:
  assumes "insertDBVersion d v = (Some e, d')"
  shows "ledger d' = ledger d \<and> schema d' = schema d \<and> trace d' = trace d @ [EvInsert v] \<and>
         (\<exists>p x. e = Wrap p (External x) [])"
  using assms
  by (auto simp: insertDBVersion_def execInsert_def split: prod.splits option.splits if_splits
      dest: driverCall_frame)

lemma deleteDBVersion_None:
  assumes "deleteDBVersion d v = (None, d')"
  shows "ledger d' = removeAll v (ledger d) \<and> schema d' = schema d \<and>
         trace d' = trace d @ [EvDelete v]"
  using assms
  by (auto simp: deleteDBVersion_def execDelete_def split: prod.splits option.splits if_splits
      dest: driverCall_frame)

lemma deleteDBVersion_Some:
  assumes "deleteDBVersion d v = (Some e, d')"
  shows "ledger d' = ledger d \<and> schema d' = schema d \<and> trace d' = trace d @ [EvDelete v] \<and>
         (\<exists>p x. e = Wrap p (External x) [])"
  using assms
  by (auto simp: deleteDBVersion_def execDelete_def split: prod.splits option.splits if_splits
      dest: driverCall_frame)

lemma getDBVersion_Inl:
  assumes "getDBVersion d = (Inl e, d')"
  shows "ledger d' = ledger d \<and> schema d' = schema d \<and> trace d' = trace d @ [EvQueryVersion] \<and>
         (\<exists>p x. e = Wrap p (External x) [])"
  using assms unfolding getDBVersion_cases
  by (auto split: list.splits option.splits)

lemma runAction_frame:
  assumes "runAction ev act d = (r, d')"
  shows "ledger d' = ledger d \<and> trace d' = trace d @ [ev] \<and>
         schema d' = fst (act (schema d)) \<and> r = snd (act (schema d)) \<and> faults d' = faults d"
  using assms by (auto simp: runAction_def split: prod.splits)

lemma migrateUp_conflict:
  assumes "getDBVersion d = (Inr r, d1)" "v \<le> r"
  shows "migrateUp v up d =
     (Some (Wrap [] ErrDBVersionChangedUp
              ('': migration version '' @ show_int v @ '' <= current DB version '' @ show_int r)),
      d1)"
  using assms by (simp add: migrateUp_def)

lemma migrateDown_conflict:
  assumes "getDBVersion d = (Inr r, d1)" "r < v"
  shows "migrateDown v down d =
     (Some (Wrap [] ErrDBVersionChangedDown
              ('': migration version '' @ show_int v @ '' > current DB version '' @ show_int r)),
      d1)"
  using assms by (simp add: migrateDown_def)

lemma migrateUp_no_conflict:
  assumes "getDBVersion d = (Inr r, d1)" "r < v" "migrateUp v up d = (Some e, d')"
  shows "\<not> Is e ErrDBVersionChangedUp"
  using assms
  by (auto simp: migrateUp_def nilDereference_def split: option.splits prod.splits
      dest!: insertDBVersion_Some)

lemma migrateDown_no_conflict:
  assumes "getDBVersion d = (Inr r, d1)" "v \<le> r" "migrateDown v down d = (Some e, d')"
  shows "\<not> Is e ErrDBVersionChangedDown"
  using assms
  by (auto simp: migrateDown_def nilDereference_def split: option.splits prod.splits
      dest!: deleteDBVersion_Some)

lemma getDBVersion_dbAt:
  "getDBVersion (dbAt rows) =
     (Inr (selectDBVersion rows),
      \<lparr>ledger = rows, schema = length rows, faults = [], trace = [EvQueryVersion]\<rparr>)"
  by (simp add: getDBVersion_cases dbAt_def)

lemma BeginTx_dbAt:
  "BeginTx (dbAt rows) =
     (None, \<lparr>ledger = rows, schema = length rows, faults = [], trace = [EvBeginTx]\<rparr>)"
  by (simp add: BeginTx_def driverCall_def dbAt_def)

lemma getDBVersion_in_tx:
  "getDBVersion \<lparr>ledger = rows, schema = n, faults = [], trace = [EvBeginTx]\<rparr> =
     (Inr (selectDBVersion rows),
      \<lparr>ledger = rows, schema = n, faults = [], trace = [EvBeginTx, EvQueryVersion]\<rparr>)"
  by (simp add: getDBVersion_cases)

text \<open>
  Claim C3. Let \<open>r\<close> be the version the guard reads. An up step aborts with the error
  \<open>errDBVersionChangedUp\<close> exactly when the candidate's version is at most \<open>r\<close>, and a
  down step aborts with \<open>errDBVersionChangedDown\<close> exactly when the candidate's version is
  greater than \<open>r\<close>. On such an abort the state is the one the read left: the action was
  not invoked, no insert or delete was sent to the ledger, ledger and schema are
  untouched.
\<close>

theorem guard_aborts_exactly:
  assumes "getDBVersion d = (Inr r, d1)"
  shows "((\<exists>e. fst (migrateUp v up d) = Some e \<and> Is e ErrDBVersionChangedUp) \<longleftrightarrow> v \<le> r) \<and>
         (v \<le> r \<longrightarrow> snd (migrateUp v up d) = d1) \<and>
         ((\<exists>e. fst (migrateDown v down d) = Some e \<and> Is e ErrDBVersionChangedDown) \<longleftrightarrow> r < v) \<and>
         (r < v \<longrightarrow> snd (migrateDown v down d) = d1) \<and>
         r = selectDBVersion (ledger d) \<and>
         ledger d1 = ledger d \<and> schema d1 = schema d \<and>
         trace d1 = trace d @ [EvQueryVersion] \<and> effects (trace d1) = effects (trace d)"
proof -
  have up: "(\<exists>e. fst (migrateUp v up d) = Some e \<and> Is e ErrDBVersionChangedUp) \<longleftrightarrow> v \<le> r"
  proof (cases "v \<le> r")
    case True
    then show ?thesis using migrateUp_conflict[OF assms True, of up] by simp
  next
    case False
    then have "r < v" by simp
    from migrateUp_no_conflict[OF assms this] False show ?thesis
      by (metis prod.collapse)
  qed
  have down: "(\<exists>e. fst (migrateDown v down d) = Some e \<and> Is e ErrDBVersionChangedDown) \<longleftrightarrow> r < v"
  proof (cases "r < v")
    case True
    then show ?thesis using migrateDown_conflict[OF assms True, of down] by simp
  next
    case False
    then have "v \<le> r" by simp
    from migrateDown_no_conflict[OF assms this] False show ?thesis
      by (metis prod.collapse)
  qed
  have st: "r = selectDBVersion (ledger d) \<and>
         ledger d1 = ledger d \<and> schema d1 = schema d \<and>
         trace d1 = trace d @ [EvQueryVersion] \<and> effects (trace d1) = effects (trace d)"
    using getDBVersion_Inr[OF assms] by (simp add: effects_def)
  have a1: "v \<le> r \<longrightarrow> snd (migrateUp v up d) = d1"
    using migrateUp_conflict[OF assms, of v up] by simp
  have a2: "r < v \<longrightarrow> snd (migrateDown v down d) = d1"
    using migrateDown_conflict[OF assms, of v down] by simp
  from up a1 down a2 st show ?thesis by (intro conjI) blast+
qed


theorem guard_aborts_exactly_witness:
  "(\<exists>e. fst (migrateUp 2 (Some stepUp) (dbAt [1, 2, 3])) = Some e \<and> Is e ErrDBVersionChangedUp) \<and>
   snd (migrateUp 2 (Some stepUp) (dbAt [1, 2, 3])) =
     \<lparr>ledger = [1, 2, 3], schema = 3, faults = [], trace = [EvQueryVersion]\<rparr> \<and>
   \<not> (\<exists>e. fst (migrateUp 4 (Some stepUp) (dbAt [1, 2, 3])) = Some e \<and> Is e ErrDBVersionChangedUp) \<and>
   (\<exists>e. fst (migrateDown 5 (Some stepDown) (dbAt [1, 2, 3])) = Some e \<and>
        Is e ErrDBVersionChangedDown) \<and>
   snd (migrateDown 5 (Some stepDown) (dbAt [1, 2, 3])) =
     \<lparr>ledger = [1, 2, 3], schema = 3, faults = [], trace = [EvQueryVersion]\<rparr> \<and>
   \<not> (\<exists>e. fst (migrateDown 3 (Some stepDown) (dbAt [1, 2, 3])) = Some e \<and>
        Is e ErrDBVersionChangedDown)"
proof -
  have r: "getDBVersion (dbAt [1, 2, 3]) =
     (Inr 3, \<lparr>ledger = [1, 2, 3], schema = 3, faults = [], trace = [EvQueryVersion]\<rparr>)"
    by (simp add: getDBVersion_dbAt selectDBVersion_def)
  show ?thesis
    using guard_aborts_exactly [OF r, where v = 2 and up = "Some stepUp"]
      guard_aborts_exactly [OF r, where v = 4 and up = "Some stepUp"]
      guard_aborts_exactly [OF r, where v = 5 and down = "Some stepDown"]
      guard_aborts_exactly [OF r, where v = 3 and down = "Some stepDown"]
    by simp
qed

section \<open>Transactions\<close>

lemma executeInTx_body_fails:
  assumes "BeginTx d = (None, tx)" "fn tx = (Some err, tx')" "\<not> isPanic err"
  shows "executeInTx d fn =
           (Some (Wrap ''failed to execute in transaction: '' err []),
            discardTx d (snd (Rollback tx')))"
  using assms by (simp add: executeInTx_def split: prod.splits)

lemma executeInTx_commit_fails:
  assumes "BeginTx d = (None, tx)" "fn tx = (None, tx')" "Commit tx' = (Some c, d2)"
  shows "executeInTx d fn =
           (Some (Wrap ''failed to commit transaction: '' (External c) []), discardTx d d2)"
  using assms by (simp add: executeInTx_def)

lemma executeInTx_None:
  assumes "executeInTx d fn = (None, d')"
  shows "\<exists>tx tx'. BeginTx d = (None, tx) \<and> fn tx = (None, tx') \<and> Commit tx' = (None, d')"
  using assms
  by (auto simp: executeInTx_def split: prod.splits option.splits if_splits)

lemma executeInTx_Some:
  assumes "executeInTx d fn = (Some e, d')"
  shows "ledger d' = ledger d \<and> schema d' = schema d"
  using assms
  by (auto simp: executeInTx_def BeginTx_def discardTx_def
      split: prod.splits option.splits if_splits dest: driverCall_frame)

lemma Rollback_frame:
  "snd (Rollback d) = d\<lparr>faults := tl (faults d), trace := trace d @ [EvRollback]\<rparr>"
  by (cases d) (auto simp: Rollback_def driverCall_def split: list.splits)

lemma discardTx_simps [simp]:
  "ledger (discardTx d d2) = ledger d" "schema (discardTx d d2) = schema d"
  "trace (discardTx d d2) = trace d2" "faults (discardTx d d2) = faults d2"
  by (simp_all add: discardTx_def)

lemma isPanic_simps [simp]:
  "isPanic (Wrap p e s) = False" "isPanic (External x) = False" "isPanic (New x) = False"
  "isPanic ErrDBVersionChangedUp = False" "isPanic ErrDBVersionChangedDown = False"
  "isPanic (RuntimePanic x) = True"
  by (simp_all add: isPanic_def)

lemma migrateUp_not_panic:
  assumes "migrateUp v (Some act) d = (Some e, d')"
  shows "\<not> isPanic e"
  using assms
  by (auto simp: migrateUp_def split: sum.splits option.splits prod.splits if_splits
      dest!: insertDBVersion_Some getDBVersion_Inl)

lemma migrateDown_not_panic:
  assumes "migrateDown v (Some act) d = (Some e, d')"
  shows "\<not> isPanic e"
  using assms
  by (auto simp: migrateDown_def split: sum.splits option.splits prod.splits if_splits
      dest!: deleteDBVersion_Some getDBVersion_Inl)

lemma Is_refl [simp]: "Is e e"
  by (cases e) simp_all

lemma conflict_in_tx:
  assumes b: "BeginTx d = (None, tx)" and f: "fn tx = (Some (Wrap [] sentinel msg), tx1)"
    and r: "getDBVersion tx = (Inr r, tx1)"
  shows "\<exists>e d'. executeInTx d fn = (Some e, d') \<and> Is e sentinel \<and>
           ledger d' = ledger d \<and> schema d' = schema d \<and>
           trace d' = trace d @ [EvBeginTx, EvQueryVersion, EvRollback]"
proof -
  from b have t: "trace tx = trace d @ [EvBeginTx]"
    unfolding BeginTx_def by (auto dest: driverCall_frame)
  from getDBVersion_Inr[OF r] have t1: "trace tx1 = trace tx @ [EvQueryVersion]" by simp
  have "executeInTx d fn =
      (Some (Wrap ''failed to execute in transaction: '' (Wrap [] sentinel msg) []),
       discardTx d (snd (Rollback tx1)))"
    using executeInTx_body_fails[of d tx fn "Wrap [] sentinel msg" tx1] b f by simp
  moreover have "trace (discardTx d (snd (Rollback tx1))) =
      trace d @ [EvBeginTx, EvQueryVersion, EvRollback]"
    by (simp add: Rollback_frame t t1)
  ultimately show ?thesis by simp
qed

text \<open>
  Claim C2, as amended. A migration aborts whenever the version re-read by the guard has
  reached the candidate's version (up: candidate at most the re-read version) or has
  fallen below it (down: candidate greater than the re-read version). This holds in both
  modes. In transactional mode the transaction is rolled back: the ledger and the schema
  are what they were before the attempt, the action has not run, no row was written.
\<close>

theorem guard_abort_in_executors:
  "(BeginTx d = (None, tx) \<and> getDBVersion tx = (Inr r, tx1) \<and> v \<le> r \<longrightarrow>
      (\<exists>e d'. executeInTx d (migrateUp v up) = (Some e, d') \<and> Is e ErrDBVersionChangedUp \<and>
          ledger d' = ledger d \<and> schema d' = schema d \<and>
          trace d' = trace d @ [EvBeginTx, EvQueryVersion, EvRollback])) \<and>
   (BeginTx d = (None, tx) \<and> getDBVersion tx = (Inr r, tx1) \<and> r < v \<longrightarrow>
      (\<exists>e d'. executeInTx d (migrateDown v down) = (Some e, d') \<and> Is e ErrDBVersionChangedDown \<and>
          ledger d' = ledger d \<and> schema d' = schema d \<and>
          trace d' = trace d @ [EvBeginTx, EvQueryVersion, EvRollback])) \<and>
   (getDBVersion d = (Inr r, d1) \<and> v \<le> r \<longrightarrow>
      (\<exists>e. executeNoTx d (migrateUp v up) = (Some e, d1) \<and> Is e ErrDBVersionChangedUp \<and>
          ledger d1 = ledger d \<and> schema d1 = schema d \<and> trace d1 = trace d @ [EvQueryVersion])) \<and>
   (getDBVersion d = (Inr r, d1) \<and> r < v \<longrightarrow>
      (\<exists>e. executeNoTx d (migrateDown v down) = (Some e, d1) \<and> Is e ErrDBVersionChangedDown \<and>
          ledger d1 = ledger d \<and> schema d1 = schema d \<and> trace d1 = trace d @ [EvQueryVersion]))"
proof (intro conjI impI)
  assume a: "BeginTx d = (None, tx) \<and> getDBVersion tx = (Inr r, tx1) \<and> v \<le> r"
  then show "\<exists>e d'. executeInTx d (migrateUp v up) = (Some e, d') \<and> Is e ErrDBVersionChangedUp \<and>
          ledger d' = ledger d \<and> schema d' = schema d \<and>
          trace d' = trace d @ [EvBeginTx, EvQueryVersion, EvRollback]"
    using conflict_in_tx[of d tx "migrateUp v up" ErrDBVersionChangedUp _ tx1 r]
      migrateUp_conflict[of tx r tx1 v up] by blast
next
  assume a: "BeginTx d = (None, tx) \<and> getDBVersion tx = (Inr r, tx1) \<and> r < v"
  then show "\<exists>e d'. executeInTx d (migrateDown v down) = (Some e, d') \<and>
          Is e ErrDBVersionChangedDown \<and>
          ledger d' = ledger d \<and> schema d' = schema d \<and>
          trace d' = trace d @ [EvBeginTx, EvQueryVersion, EvRollback]"
    using conflict_in_tx[of d tx "migrateDown v down" ErrDBVersionChangedDown _ tx1 r]
      migrateDown_conflict[of tx r tx1 v down] by blast
next
  assume a: "getDBVersion d = (Inr r, d1) \<and> v \<le> r"
  then have "executeNoTx d (migrateUp v up) =
      (Some (Wrap ''failed to execute without transaction: ''
         (Wrap [] ErrDBVersionChangedUp
              ('': migration version '' @ show_int v @ '' <= current DB version '' @ show_int r))
         []), d1)"
    using migrateUp_conflict[of d r d1 v up] by (simp add: executeNoTx_def Errorf_def)
  then show "\<exists>e. executeNoTx d (migrateUp v up) = (Some e, d1) \<and> Is e ErrDBVersionChangedUp \<and>
          ledger d1 = ledger d \<and> schema d1 = schema d \<and> trace d1 = trace d @ [EvQueryVersion]"
    using a getDBVersion_Inr[of d r d1] by simp
next
  assume a: "getDBVersion d = (Inr r, d1) \<and> r < v"
  then have "executeNoTx d (migrateDown v down) =
      (Some (Wrap ''failed to execute without transaction: ''
         (Wrap [] ErrDBVersionChangedDown
              ('': migration version '' @ show_int v @ '' > current DB version '' @ show_int r))
         []), d1)"
    using migrateDown_conflict[of d r d1 v down] by (simp add: executeNoTx_def Errorf_def)
  then show "\<exists>e. executeNoTx d (migrateDown v down) = (Some e, d1) \<and>
          Is e ErrDBVersionChangedDown \<and>
          ledger d1 = ledger d \<and> schema d1 = schema d \<and> trace d1 = trace d @ [EvQueryVersion]"
    using a getDBVersion_Inr[of d r d1] by simp
qed


theorem guard_abort_in_executors_witness:
  "(\<exists>e d'. executeInTx (dbAt [1, 2, 3]) (migrateUp 2 (Some stepUp)) = (Some e, d') \<and>
       Is e ErrDBVersionChangedUp \<and> ledger d' = [1, 2, 3] \<and> schema d' = 3 \<and>
       trace d' = [EvBeginTx, EvQueryVersion, EvRollback]) \<and>
   (\<exists>e d'. executeInTx (dbAt [1, 2, 3]) (migrateDown 5 (Some stepDown)) = (Some e, d') \<and>
       Is e ErrDBVersionChangedDown \<and> ledger d' = [1, 2, 3] \<and> schema d' = 3 \<and>
       trace d' = [EvBeginTx, EvQueryVersion, EvRollback]) \<and>
   (\<exists>e. executeNoTx (dbAt [1, 2, 3]) (migrateUp 2 (Some stepUp)) =
          (Some e, \<lparr>ledger = [1, 2, 3], schema = 3, faults = [], trace = [EvQueryVersion]\<rparr>) \<and>
        Is e ErrDBVersionChangedUp) \<and>
   (\<exists>e. executeNoTx (dbAt [1, 2, 3]) (migrateDown 5 (Some stepDown)) =
          (Some e, \<lparr>ledger = [1, 2, 3], schema = 3, faults = [], trace = [EvQueryVersion]\<rparr>) \<and>
        Is e ErrDBVersionChangedDown)"
proof -
  have b: "BeginTx (dbAt [1, 2, 3]) =
     (None, \<lparr>ledger = [1, 2, 3], schema = 3, faults = [], trace = [EvBeginTx]\<rparr>)"
    by (simp add: BeginTx_dbAt)
  have rt: "getDBVersion \<lparr>ledger = [1, 2, 3], schema = 3, faults = [], trace = [EvBeginTx]\<rparr> =
     (Inr 3, \<lparr>ledger = [1, 2, 3], schema = 3::nat, faults = [],
             trace = [EvBeginTx, EvQueryVersion]\<rparr>)"
    by (simp add: getDBVersion_in_tx selectDBVersion_def)
  have r: "getDBVersion (dbAt [1, 2, 3]) =
     (Inr 3, \<lparr>ledger = [1, 2, 3], schema = 3, faults = [], trace = [EvQueryVersion]\<rparr>)"
    by (simp add: getDBVersion_dbAt selectDBVersion_def)
  have l: "ledger (dbAt [1, 2, 3]) = [1, 2, 3]" "schema (dbAt [1, 2, 3]) = 3"
    "trace (dbAt [1, 2, 3]) = []"
    by (simp_all add: dbAt_def)
  show ?thesis
    using guard_abort_in_executors [where d = "dbAt [1, 2, 3]" and r = 3 and v = 2
        and tx = "\<lparr>ledger = [1, 2, 3], schema = 3, faults = [], trace = [EvBeginTx]\<rparr>"
        and ?tx1.0 = "\<lparr>ledger = [1, 2, 3], schema = 3, faults = [],
                       trace = [EvBeginTx, EvQueryVersion]\<rparr>"
        and ?d1.0 = "\<lparr>ledger = [1, 2, 3], schema = 3, faults = [], trace = [EvQueryVersion]\<rparr>"
        and up = "Some stepUp"]
      guard_abort_in_executors [where d = "dbAt [1, 2, 3]" and r = 3 and v = 5
        and tx = "\<lparr>ledger = [1, 2, 3], schema = 3, faults = [], trace = [EvBeginTx]\<rparr>"
        and ?tx1.0 = "\<lparr>ledger = [1, 2, 3], schema = 3, faults = [],
                       trace = [EvBeginTx, EvQueryVersion]\<rparr>"
        and ?d1.0 = "\<lparr>ledger = [1, 2, 3], schema = 3, faults = [], trace = [EvQueryVersion]\<rparr>"
        and down = "Some stepDown"]
      b rt r l
    by simp
qed

text \<open>
  Claim C2 as stated fails: the re-read version may differ from the version used to
  select the candidate without any abort. Apply-all reads the version once (0 on a fresh
  database) and selects the migrations 1 and 2 with it; when migration 2 is executed the
  guard reads 1, and migration 2 is applied.
\<close>

theorem reread_differs_without_abort:
  "fst (getDBVersion freshDB) = Inr 0 \<and> 0 < Version (txMigration 2) \<and>
   fst (getDBVersion (snd (applyUp (txMigration 1) (snd (getDBVersion freshDB))))) = Inr 1 \<and>
   fst (applyUp (txMigration 2) (snd (applyUp (txMigration 1) (snd (getDBVersion freshDB))))) = None \<and>
   runCmdUp twoMigrations freshDB 0 =
     (None,
      \<lparr>ledger = [1, 2], schema = 2, faults = [],
       trace = [EvQueryVersion, EvBeginTx, EvQueryVersion, EvActionUp 1, EvInsert 1, EvCommit,
                EvBeginTx, EvQueryVersion, EvActionUp 2, EvInsert 2, EvCommit]\<rparr>,
      [''[x] Applied migration version 1'', ''[x] Applied migration version 2'',
       ''2 migration(s) applied''])"
  by code_simp

section \<open>Applying one migration\<close>

lemma effects_append [simp]: "effects (xs @ ys) = effects xs @ effects ys"
  by (simp add: effects_def)

lemma effects_simps [simp]:
  "effects [] = []"
  "effects (EvQueryVersion # evs) = effects evs"
  "effects (EvBeginTx # evs) = effects evs"
  "effects (EvCommit # evs) = effects evs"
  "effects (EvRollback # evs) = effects evs"
  "effects (EvActionUp v # evs) = EvActionUp v # effects evs"
  "effects (EvActionDown v # evs) = EvActionDown v # effects evs"
  "effects (EvInsert v # evs) = EvInsert v # effects evs"
  "effects (EvDelete v # evs) = EvDelete v # effects evs"
  by (simp_all add: effects_def)

lemma BeginTx_frame:
  assumes "BeginTx d = (r, tx)"
  shows "ledger tx = ledger d \<and> schema tx = schema d \<and> trace tx = trace d @ [EvBeginTx]"
  using assms unfolding BeginTx_def by (auto dest: driverCall_frame)

lemma Commit_frame:
  assumes "Commit d = (r, d')"
  shows "ledger d' = ledger d \<and> schema d' = schema d \<and> trace d' = trace d @ [EvCommit]"
  using assms unfolding Commit_def by (auto dest: driverCall_frame)

lemma migrateUp_None:
  assumes "migrateUp v up d = (None, d')"
  shows "selectDBVersion (ledger d) < v \<and> ledger d' = ledger d @ [v] \<and>
         trace d' = trace d @ [EvQueryVersion, EvActionUp v, EvInsert v]"
proof -
  from assms obtain r d1 where r: "getDBVersion d = (Inr r, d1)"
    by (auto simp: migrateUp_def split: sum.splits prod.splits)
  with assms have lt: "r < v" by (auto simp: migrateUp_def split: if_splits)
  with assms r obtain act d2 where
    a: "runAction (EvActionUp v) act d1 = (None, d2)" and i: "insertDBVersion d2 v = (None, d')"
    by (auto simp: migrateUp_def split: option.splits prod.splits)
  from getDBVersion_Inr[OF r] runAction_frame[OF a] insertDBVersion_None[OF i] lt
  show ?thesis by simp
qed

lemma migrateUp_Some:
  assumes "migrateUp v up d = (Some e, d')"
  shows "ledger d' = ledger d"
  using assms
  by (auto simp: migrateUp_def split: sum.splits option.splits prod.splits if_splits
      dest!: insertDBVersion_Some getDBVersion_Inl getDBVersion_Inr runAction_frame)

lemma migrateDown_None:
  assumes "migrateDown v down d = (None, d')"
  shows "v \<le> selectDBVersion (ledger d) \<and> ledger d' = removeAll v (ledger d) \<and>
         trace d' = trace d @ [EvQueryVersion, EvActionDown v, EvDelete v]"
proof -
  from assms obtain r d1 where r: "getDBVersion d = (Inr r, d1)"
    by (auto simp: migrateDown_def split: sum.splits prod.splits)
  with assms have le: "v \<le> r" by (auto simp: migrateDown_def split: if_splits)
  with assms r obtain act d2 where
    a: "runAction (EvActionDown v) act d1 = (None, d2)" and i: "deleteDBVersion d2 v = (None, d')"
    by (auto simp: migrateDown_def split: option.splits prod.splits)
  from getDBVersion_Inr[OF r] runAction_frame[OF a] deleteDBVersion_None[OF i] le
  show ?thesis by simp
qed

lemma migrateDown_Some:
  assumes "migrateDown v down d = (Some e, d')"
  shows "ledger d' = ledger d"
  using assms
  by (auto simp: migrateDown_def split: sum.splits option.splits prod.splits if_splits
      dest!: deleteDBVersion_Some getDBVersion_Inl getDBVersion_Inr runAction_frame)

lemma applyUp_None:
  assumes "applyUp m d = (None, d')"
  shows "ledger d' = ledger d @ [Version m] \<and>
         effects (trace d') = effects (trace d) @ [EvActionUp (Version m), EvInsert (Version m)]"
proof (cases "UpDown m")
  case (Some ud)
  with assms have "executeInTx d (migrateUp (Version m) (Up ud)) = (None, d')"
    by (auto simp: applyUp_def split: prod.splits option.splits)
  from executeInTx_None[OF this] obtain tx tx' where
    b: "BeginTx d = (None, tx)" and f: "migrateUp (Version m) (Up ud) tx = (None, tx')"
    and c: "Commit tx' = (None, d')" by blast
  from BeginTx_frame[OF b] migrateUp_None[OF f] Commit_frame[OF c]
  show ?thesis by simp
next
  case None
  with assms obtain ud where "UpDownNoTX m = Some ud"
    and "executeNoTx d (migrateUp (Version m) (Up ud)) = (None, d')"
    by (auto simp: applyUp_def split: prod.splits option.splits)
  then have "migrateUp (Version m) (Up ud) d = (None, d')"
    by (auto simp: executeNoTx_def split: prod.splits option.splits)
  from migrateUp_None[OF this] show ?thesis by simp
qed

lemma applyUp_Some:
  assumes "applyUp m d = (Some e, d')"
  shows "ledger d' = ledger d"
  using assms
  by (auto simp: applyUp_def executeNoTx_def split: prod.splits option.splits
      dest: executeInTx_Some migrateUp_Some)

lemma applyUp_Some_tx:
  assumes "applyUp m d = (Some e, d')" "UpDown m \<noteq> None"
  shows "ledger d' = ledger d \<and> schema d' = schema d"
  using assms
  by (auto simp: applyUp_def split: prod.splits option.splits dest: executeInTx_Some)


section \<open>The loop of the command up\<close>

text \<open>
  Whatever the outcome of the loop, the versions it applied are the first of the pending
  ones, in the order of the registry; each is in the ledger and has its line in the
  output.
\<close>

lemma pending_Cons:
  "pending dbv (m # ms) = (if dbv < Version m then Version m # pending dbv ms else pending dbv ms)"
  by (simp add: pending_def)

lemma upLoop_progress:
  assumes "upLoop dbv limit ms nb d = (res, nb', d', out)"
  shows "\<exists>vs. prefix vs (pending dbv ms) \<and> ledger d' = ledger d @ vs \<and>
              out = map appliedLine vs \<and> nb' = nb + int (length vs)"
  using assms
proof (induction ms arbitrary: nb d res nb' d' out)
  case Nil
  then show ?case by (simp add: pending_def)
next
  case (Cons m ms)
  show ?case
  proof (cases "Version m \<le> dbv")
    case True
    with Cons.prems have "upLoop dbv limit ms nb d = (res, nb', d', out)" by simp
    from Cons.IH[OF this] True show ?thesis by (simp add: pending_Cons)
  next
    case False
    then have lt: "dbv < Version m" by simp
    show ?thesis
    proof (cases "applyUp m d")
      case (Pair r d1)
      show ?thesis
      proof (cases r)
        case (Some err)
        with Pair Cons.prems False have "d' = d1" "out = []" "nb' = nb"
          by simp_all
        moreover from Pair Some have "ledger d1 = ledger d" by (auto dest: applyUp_Some)
        ultimately show ?thesis by (intro exI[of _ "[]"]) simp
      next
        case None
        with Pair have l1: "ledger d1 = ledger d @ [Version m]" by (auto dest: applyUp_None)
        show ?thesis
        proof (cases "limit > 0 \<and> nb + 1 = limit")
          case True
          with Pair None Cons.prems False
          have "d' = d1" "out = [appliedLine (Version m)]" "nb' = nb + 1"
            by (simp_all add: appliedLine_def)
          with l1 lt show ?thesis
            by (intro exI[of _ "[Version m]"]) (simp add: pending_Cons)
        next
          case nobreak: False
          obtain r2 nb2 d2 out2 where
            rec: "upLoop dbv limit ms (nb + 1) d1 = (r2, nb2, d2, out2)"
            by (metis prod_cases4)
          with Pair None Cons.prems False nobreak
          have eq: "res = r2" "nb' = nb2" "d' = d2" "out = appliedLine (Version m) # out2"
            by (auto simp: appliedLine_def Let_def)
          from Cons.IH[OF rec] obtain vs where
            vs: "prefix vs (pending dbv ms)" "ledger d2 = ledger d1 @ vs"
                "out2 = map appliedLine vs" "nb2 = nb + 1 + int (length vs)"
            by blast
          with eq l1 lt show ?thesis
            by (intro exI[of _ "Version m # vs"]) (simp add: pending_Cons)
        qed
      qed
    qed
  qed
qed

lemma upLoop_all:
  assumes "upLoop dbv limit ms nb d = (None, nb', d', out)" "limit \<le> 0"
  shows "ledger d' = ledger d @ pending dbv ms \<and> out = map appliedLine (pending dbv ms) \<and>
         nb' = nb + int (length (pending dbv ms)) \<and>
         effects (trace d') =
           effects (trace d) @ concat (map (\<lambda>v. [EvActionUp v, EvInsert v]) (pending dbv ms))"
  using assms
proof (induction ms arbitrary: nb d nb' d' out)
  case Nil
  then show ?case by (simp add: pending_def)
next
  case (Cons m ms)
  show ?case
  proof (cases "Version m \<le> dbv")
    case True
    with Cons.prems have "upLoop dbv limit ms nb d = (None, nb', d', out)" by simp
    from Cons.IH[OF this Cons.prems(2)] True show ?thesis by (simp add: pending_Cons)
  next
    case False
    then have lt: "dbv < Version m" by simp
    obtain r d1 where a: "applyUp m d = (r, d1)" by (cases "applyUp m d")
    with Cons.prems False have r: "r = None" by (cases r) auto
    from a r have l1: "ledger d1 = ledger d @ [Version m]"
      "effects (trace d1) = effects (trace d) @ [EvActionUp (Version m), EvInsert (Version m)]"
      by (auto dest: applyUp_None)
    obtain r2 nb2 d2 out2 where
      rec: "upLoop dbv limit ms (nb + 1) d1 = (r2, nb2, d2, out2)"
      by (metis prod_cases4)
    with a r Cons.prems False
    have eq: "r2 = None" "nb' = nb2" "d' = d2" "out = appliedLine (Version m) # out2"
      by (auto simp: appliedLine_def Let_def)
    from Cons.IH[OF rec[unfolded eq(1)] Cons.prems(2)] eq l1 lt show ?thesis
      by (simp add: pending_Cons)
  qed
qed


lemma runCmdUp_progress:
  assumes "runCmdUp ms d limit = (res, d', out)" "res \<noteq> None"
  shows "\<exists>vs. ledger d' = ledger d @ vs \<and> out = map appliedLine vs"
proof (cases "getDBVersion d")
  case (Pair x d1)
  show ?thesis
  proof (cases x)
    case (Inl err)
    with Pair assms have "d' = d1" "out = []" by (simp_all add: runCmdUp_def)
    moreover from Pair Inl have "ledger d1 = ledger d" by (auto dest: getDBVersion_Inl)
    ultimately show ?thesis by simp
  next
    case (Inr dbv)
    with Pair have l: "ledger d1 = ledger d" by (auto dest: getDBVersion_Inr)
    obtain r nb d2 out2 where
      loop: "upLoop dbv limit (sortMigrationsAsc ms) 0 d1 = (r, nb, d2, out2)"
      by (metis prod_cases4)
    with Pair Inr assms have "d' = d2" "out = out2"
      by (auto simp: runCmdUp_def split: option.splits if_splits)
    with upLoop_progress[OF loop] l show ?thesis by auto
  qed
qed

lemma upLoop_through:
  assumes "upLoop dbv limit ms nb d = (None, nb', d', out)" "limit \<le> 0 \<or> nb' < limit"
  shows "ledger d' = ledger d @ pending dbv ms \<and> out = map appliedLine (pending dbv ms) \<and>
         nb' = nb + int (length (pending dbv ms))"
  using assms
proof (induction ms arbitrary: nb d nb' d' out)
  case Nil
  then show ?case by (simp add: pending_def)
next
  case (Cons m ms)
  show ?case
  proof (cases "Version m \<le> dbv")
    case True
    with Cons.prems have "upLoop dbv limit ms nb d = (None, nb', d', out)" by simp
    from Cons.IH[OF this Cons.prems(2)] True show ?thesis by (simp add: pending_Cons)
  next
    case False
    then have lt: "dbv < Version m" by simp
    obtain r d1 where a: "applyUp m d = (r, d1)" by (cases "applyUp m d")
    with Cons.prems False have r: "r = None" by (cases r) auto
    from a r have l1: "ledger d1 = ledger d @ [Version m]" by (auto dest: applyUp_None)
    have nobreak: "\<not> (limit > 0 \<and> nb + 1 = limit)"
    proof
      assume b: "limit > 0 \<and> nb + 1 = limit"
      with a r Cons.prems(1) False have "nb' = nb + 1" by (simp add: Let_def)
      with b Cons.prems(2) show False by simp
    qed
    obtain r2 nb2 d2 out2 where
      rec: "upLoop dbv limit ms (nb + 1) d1 = (r2, nb2, d2, out2)"
      by (metis prod_cases4)
    with a r Cons.prems(1) False nobreak
    have eq: "r2 = None" "nb' = nb2" "d' = d2" "out = appliedLine (Version m) # out2"
      by (auto simp: appliedLine_def Let_def)
    from Cons.IH[OF rec[unfolded eq(1)]] Cons.prems(2) eq l1 lt show ?thesis
      by (simp add: pending_Cons)
  qed
qed

lemma upLoop_append:
  assumes "upLoop dbv limit pre nb d = (None, nb1, d1, out1)" "limit \<le> 0 \<or> nb1 < limit"
  shows "upLoop dbv limit (pre @ rest) nb d =
           (case upLoop dbv limit rest nb1 d1 of
              (r, nb2, d2, out2) \<Rightarrow> (r, nb2, d2, out1 @ out2))"
  using assms
proof (induction pre arbitrary: nb d out1)
  case Nil
  then show ?case by (simp split: prod.splits)
next
  case (Cons m pre)
  show ?case
  proof (cases "Version m \<le> dbv")
    case True
    with Cons.prems have "upLoop dbv limit pre nb d = (None, nb1, d1, out1)" by simp
    from Cons.IH[OF this Cons.prems(2)] True show ?thesis by simp
  next
    case False
    obtain r d' where a: "applyUp m d = (r, d')" by (cases "applyUp m d")
    with Cons.prems False have r: "r = None" by (cases r) auto
    have nobreak: "\<not> (limit > 0 \<and> nb + 1 = limit)"
    proof
      assume b: "limit > 0 \<and> nb + 1 = limit"
      with a r Cons.prems(1) False have "nb1 = nb + 1" by (simp add: Let_def)
      with b Cons.prems(2) show False by simp
    qed
    obtain r2 nb2 d2 out2 where
      rec: "upLoop dbv limit pre (nb + 1) d' = (r2, nb2, d2, out2)"
      by (metis prod_cases4)
    with a r Cons.prems(1) False nobreak
    have eq: "r2 = None" "nb1 = nb2" "d1 = d2"
      "out1 = (''[x] Applied migration version '' @ show_int (Version m)) # out2"
      by (auto simp: Let_def)
    from rec eq have rec': "upLoop dbv limit pre (nb + 1) d' = (None, nb1, d1, out2)" by simp
    obtain r3 nb3 d3 out3 where
      tail: "upLoop dbv limit rest nb1 d1 = (r3, nb3, d3, out3)"
      by (metis prod_cases4)
    from Cons.IH[OF rec' Cons.prems(2)] tail
    have ih: "upLoop dbv limit (pre @ rest) (nb + 1) d' = (r3, nb3, d3, out2 @ out3)"
      by simp
    have "upLoop dbv limit ((m # pre) @ rest) nb d =
        (r3, nb3, d3, (''[x] Applied migration version '' @ show_int (Version m)) # out2 @ out3)"
      using a r False nobreak ih by (auto simp: Let_def)
    with tail eq(4) show ?thesis by simp
  qed
qed

lemma runCmdUp_progress_prefix:
  assumes "runCmdUp ms d limit = (res, d', out)" "res \<noteq> None"
  shows "\<exists>vs. prefix vs (pending (selectDBVersion (ledger d)) (sortMigrationsAsc ms)) \<and>
              ledger d' = ledger d @ vs \<and> out = map appliedLine vs"
proof (cases "getDBVersion d")
  case (Pair x d1)
  show ?thesis
  proof (cases x)
    case (Inl err)
    with Pair assms have "d' = d1" "out = []" by (simp_all add: runCmdUp_def)
    moreover from Pair Inl have "ledger d1 = ledger d" by (auto dest: getDBVersion_Inl)
    ultimately show ?thesis by (intro exI[of _ "[]"]) simp
  next
    case (Inr dbv)
    with Pair have l: "ledger d1 = ledger d" "dbv = selectDBVersion (ledger d)"
      by (auto dest: getDBVersion_Inr)
    obtain r nb d2 out2 where
      loop: "upLoop dbv limit (sortMigrationsAsc ms) 0 d1 = (r, nb, d2, out2)"
      by (metis prod_cases4)
    with Pair Inr assms have "d' = d2" "out = out2"
      by (auto simp: runCmdUp_def split: option.splits if_splits)
    with upLoop_progress[OF loop] l show ?thesis by auto
  qed
qed

lemma run_stops_at_failure:
  assumes r: "getDBVersion d0 = (Inr V, dr)"
    and s: "sortMigrationsAsc ms = pre @ mf # post"
    and p: "upLoop V limit pre 0 dr = (None, nbp, dp, outp)" "limit \<le> 0 \<or> nbp < limit"
    and f: "V < Version mf" "applyUp mf dp = (Some errf, df)"
  shows "runCmdUp ms d0 limit = (Some errf, df, outp) \<and>
         outp = map appliedLine (pending V pre) \<and>
         ledger df = ledger d0 @ pending V pre"
proof -
  from f have step: "upLoop V limit (mf # post) nbp dp = (Some errf, nbp, df, [])" by simp
  from upLoop_append[OF p, of "mf # post"] step
  have loop: "upLoop V limit (pre @ mf # post) 0 dr = (Some errf, nbp, df, outp)" by simp
  have run: "runCmdUp ms d0 limit = (Some errf, df, outp)"
    using r loop by (simp add: runCmdUp_def s)
  from upLoop_through[OF p]
  have "ledger dp = ledger dr @ pending V pre" "outp = map appliedLine (pending V pre)"
    by simp_all
  moreover from getDBVersion_Inr[OF r] have "ledger dr = ledger d0" by simp
  moreover from f(2) have "ledger df = ledger dp" by (rule applyUp_Some)
  ultimately show ?thesis using run by simp
qed

text \<open>
  Claim C4. In a transaction whose body fails (the guard's read or its check, the action,
  or the insert or delete in the ledger; with an action that is not nil the error is
  never a panic) \<open>executeInTx\<close> calls \<open>Rollback\<close>, ignores what \<open>Rollback\<close> answers and
  returns the error of the body, wrapped; ledger and schema are what they were before the
  attempt. When the body succeeds and \<open>Commit\<close> fails, the error of \<open>Commit\<close> is returned,
  wrapped. In the loop of apply, a migration whose execution fails ends the loop at once
  with that error, and a failed transactional migration leaves ledger and schema as the
  migrations before it left them. For the whole command: when the version is read as \<open>V\<close>,
  the migrations \<open>pre\<close> that come before \<open>mf\<close> in the sorted registry have gone through the
  loop without error and without reaching the limit, and the execution of the pending
  migration \<open>mf\<close> fails, then apply returns that error with the state the failed attempt
  left and the lines of the migrations applied so far: no migration after \<open>mf\<close> is looked
  at, and the ledger is the initial one followed by the pending versions of \<open>pre\<close>.
  Whenever apply returns an error, the versions it reported as applied are the first of
  the pending ones and the ledger is the initial one followed by them.
\<close>

theorem transactional_failure_semantics:
  "(BeginTx d = (None, tx) \<and> fn tx = (Some err, tx') \<and> \<not> isPanic err \<longrightarrow>
      executeInTx d fn =
        (Some (Wrap ''failed to execute in transaction: '' err []),
         discardTx d (snd (Rollback tx'))) \<and>
      ledger (discardTx d (snd (Rollback tx'))) = ledger d \<and>
      schema (discardTx d (snd (Rollback tx'))) = schema d \<and>
      trace (discardTx d (snd (Rollback tx'))) = trace tx' @ [EvRollback]) \<and>
   (migrateUp v (Some act) tx = (Some err, tx') \<or> migrateDown v (Some act) tx = (Some err, tx')
      \<longrightarrow> \<not> isPanic err) \<and>
   (BeginTx d = (None, tx) \<and> fn tx = (None, tx') \<and> Commit tx' = (Some c, d2) \<longrightarrow>
      executeInTx d fn =
        (Some (Wrap ''failed to commit transaction: '' (External c) []), discardTx d d2) \<and>
      ledger (discardTx d d2) = ledger d \<and> schema (discardTx d d2) = schema d) \<and>
   (dbVersion < Version m \<and> applyUp m d = (Some err, d') \<longrightarrow>
      upLoop dbVersion limit (m # rest) nb d = (Some err, nb, d', [])) \<and>
   (UpDown m \<noteq> None \<and> applyUp m d = (Some err, d') \<longrightarrow>
      ledger d' = ledger d \<and> schema d' = schema d) \<and>
   (runCmdUp ms d limit = (Some err, d', out) \<longrightarrow>
      (\<exists>vs. prefix vs (pending (selectDBVersion (ledger d)) (sortMigrationsAsc ms)) \<and>
            ledger d' = ledger d @ vs \<and> out = map appliedLine vs)) \<and>
   (getDBVersion d0 = (Inr V, dr) \<and> sortMigrationsAsc ms = pre @ mf # post \<and>
    upLoop V limit pre 0 dr = (None, nbp, dp, outp) \<and> (limit \<le> 0 \<or> nbp < limit) \<and>
    V < Version mf \<and> applyUp mf dp = (Some errf, df) \<longrightarrow>
      runCmdUp ms d0 limit = (Some errf, df, outp) \<and>
      outp = map appliedLine (pending V pre) \<and>
      ledger df = ledger d0 @ pending V pre)"
proof (intro conjI impI)
  assume a: "BeginTx d = (None, tx) \<and> fn tx = (Some err, tx') \<and> \<not> isPanic err"
  then show "executeInTx d fn =
        (Some (Wrap ''failed to execute in transaction: '' err []),
         discardTx d (snd (Rollback tx')))"
    using executeInTx_body_fails[of d tx fn err tx'] by simp
  show "ledger (discardTx d (snd (Rollback tx'))) = ledger d" by simp
  show "schema (discardTx d (snd (Rollback tx'))) = schema d" by simp
  show "trace (discardTx d (snd (Rollback tx'))) = trace tx' @ [EvRollback]"
    by (simp add: Rollback_frame)
next
  assume "migrateUp v (Some act) tx = (Some err, tx') \<or>
          migrateDown v (Some act) tx = (Some err, tx')"
  then show "\<not> isPanic err"
    using migrateUp_not_panic migrateDown_not_panic by blast
next
  assume a: "BeginTx d = (None, tx) \<and> fn tx = (None, tx') \<and> Commit tx' = (Some c, d2)"
  then show "executeInTx d fn =
        (Some (Wrap ''failed to commit transaction: '' (External c) []), discardTx d d2)"
    using executeInTx_commit_fails[of d tx fn tx' c d2] by simp
  show "ledger (discardTx d d2) = ledger d" by simp
  show "schema (discardTx d d2) = schema d" by simp
next
  assume "dbVersion < Version m \<and> applyUp m d = (Some err, d')"
  then show "upLoop dbVersion limit (m # rest) nb d = (Some err, nb, d', [])" by simp
next
  assume a: "UpDown m \<noteq> None \<and> applyUp m d = (Some err, d')"
  then show "ledger d' = ledger d" "schema d' = schema d"
    using applyUp_Some_tx[of m d err d'] by simp_all
next
  assume "runCmdUp ms d limit = (Some err, d', out)"
  then show "\<exists>vs. prefix vs (pending (selectDBVersion (ledger d)) (sortMigrationsAsc ms)) \<and>
            ledger d' = ledger d @ vs \<and> out = map appliedLine vs"
    by (rule runCmdUp_progress_prefix) simp
next
  assume a: "getDBVersion d0 = (Inr V, dr) \<and> sortMigrationsAsc ms = pre @ mf # post \<and>
    upLoop V limit pre 0 dr = (None, nbp, dp, outp) \<and> (limit \<le> 0 \<or> nbp < limit) \<and>
    V < Version mf \<and> applyUp mf dp = (Some errf, df)"
  then have "runCmdUp ms d0 limit = (Some errf, df, outp) \<and>
      outp = map appliedLine (pending V pre) \<and>
      ledger df = ledger d0 @ pending V pre"
    by (intro run_stops_at_failure[of d0 V dr ms pre mf post limit nbp dp outp errf df]) simp_all
  then show "runCmdUp ms d0 limit = (Some errf, df, outp)"
    "outp = map appliedLine (pending V pre)"
    "ledger df = ledger d0 @ pending V pre"
    by simp_all
qed


theorem transactional_failure_semantics_witness:
  "executeInTx rollbackFailsDB (migrateUp 1 (Some brokenUp)) =
     (Some (Wrap ''failed to execute in transaction: ''
        (Wrap ''failed to apply migration.up version 1: '' (External ''syntax error'') []) []),
      \<lparr>ledger = [], schema = 0, faults = [],
        trace = [EvBeginTx, EvQueryVersion, EvActionUp 1, EvRollback]\<rparr>) \<and>
   executeInTx commitFailsDB (migrateUp 1 (Some stepUp)) =
     (Some (Wrap ''failed to commit transaction: '' (External ''connection lost'') []),
      \<lparr>ledger = [], schema = 0, faults = [],
        trace = [EvBeginTx, EvQueryVersion, EvActionUp 1, EvInsert 1, EvCommit]\<rparr>) \<and>
   upLoop 0 0 [brokenMigration 2, txMigration 3] 1 (dbAt [1]) =
     (Some (Wrap ''execute in TX: ''
        (Wrap ''failed to execute in transaction: ''
          (Wrap ''failed to apply migration.up version 2: '' (External ''syntax error'') []) []) []),
      1,
      \<lparr>ledger = [1], schema = 1, faults = [],
        trace = [EvBeginTx, EvQueryVersion, EvActionUp 2, EvRollback]\<rparr>,
      []) \<and>
   runCmdUp brokenSecond freshDB 0 =
     (Some (Wrap ''execute in TX: ''
        (Wrap ''failed to execute in transaction: ''
          (Wrap ''failed to apply migration.up version 2: '' (External ''syntax error'') []) []) []),
      \<lparr>ledger = [1], schema = 1, faults = [],
        trace = [EvQueryVersion, EvBeginTx, EvQueryVersion, EvActionUp 1, EvInsert 1, EvCommit,
                 EvBeginTx, EvQueryVersion, EvActionUp 2, EvRollback]\<rparr>,
      [''[x] Applied migration version 1'']) \<and>
   ledger (fst (snd (runCmdUp brokenSecond freshDB 0))) =
     ledger freshDB @ pending 0 [txMigration 1] \<and>
   (\<exists>vs. prefix vs (pending (selectDBVersion (ledger freshDB)) (sortMigrationsAsc brokenSecond)) \<and>
      ledger (fst (snd (runCmdUp brokenSecond freshDB 0))) = ledger freshDB @ vs \<and>
      snd (snd (runCmdUp brokenSecond freshDB 0)) = map appliedLine vs)"
proof -
  let ?E1 = "Wrap ''failed to apply migration.up version 1: '' (External ''syntax error'') []"
  let ?T1 = "\<lparr>ledger = [], schema = 0::nat, faults = [None, Some ''connection lost''],
              trace = [EvBeginTx]\<rparr>"
  let ?T1' = "\<lparr>ledger = [], schema = 1::nat, faults = [Some ''connection lost''],
               trace = [EvBeginTx, EvQueryVersion, EvActionUp 1]\<rparr>"
  have b1: "BeginTx rollbackFailsDB = (None, ?T1)" by code_simp
  have f1: "migrateUp 1 (Some brokenUp) ?T1 = (Some ?E1, ?T1')" by code_simp
  have p1: "\<not> isPanic ?E1" by simp
  have r1: "discardTx rollbackFailsDB (snd (Rollback ?T1')) =
      \<lparr>ledger = [], schema = 0, faults = [],
        trace = [EvBeginTx, EvQueryVersion, EvActionUp 1, EvRollback]\<rparr>"
    by code_simp
  have h1: "BeginTx rollbackFailsDB = (None, ?T1) \<and>
      migrateUp 1 (Some brokenUp) ?T1 = (Some ?E1, ?T1') \<and> \<not> isPanic ?E1"
    using b1 f1 p1 by (intro conjI)
  have 1: "executeInTx rollbackFailsDB (migrateUp 1 (Some brokenUp)) =
     (Some (Wrap ''failed to execute in transaction: '' ?E1 []),
      \<lparr>ledger = [], schema = 0, faults = [],
        trace = [EvBeginTx, EvQueryVersion, EvActionUp 1, EvRollback]\<rparr>)"
    using transactional_failure_semantics [where d = rollbackFailsDB and tx = ?T1
        and fn = "migrateUp 1 (Some brokenUp)" and err = ?E1 and tx' = ?T1',
        THEN conjunct1, THEN mp, OF h1, THEN conjunct1]
    by (simp only: r1)
  let ?T2 = "\<lparr>ledger = [], schema = 0::nat, faults = [None, None, Some ''connection lost''],
              trace = [EvBeginTx]\<rparr>"
  let ?T2' = "\<lparr>ledger = [1], schema = 1::nat, faults = [Some ''connection lost''],
               trace = [EvBeginTx, EvQueryVersion, EvActionUp 1, EvInsert 1]\<rparr>"
  let ?D2 = "\<lparr>ledger = [1], schema = 1::nat, faults = [],
              trace = [EvBeginTx, EvQueryVersion, EvActionUp 1, EvInsert 1, EvCommit]\<rparr>"
  have b2: "BeginTx commitFailsDB = (None, ?T2)" by code_simp
  have f2: "migrateUp 1 (Some stepUp) ?T2 = (None, ?T2')" by code_simp
  have c2: "Commit ?T2' = (Some ''connection lost'', ?D2)" by code_simp
  have r2: "discardTx commitFailsDB ?D2 =
      \<lparr>ledger = [], schema = 0, faults = [],
        trace = [EvBeginTx, EvQueryVersion, EvActionUp 1, EvInsert 1, EvCommit]\<rparr>"
    by code_simp
  have h2: "BeginTx commitFailsDB = (None, ?T2) \<and>
      migrateUp 1 (Some stepUp) ?T2 = (None, ?T2') \<and>
      Commit ?T2' = (Some ''connection lost'', ?D2)"
    using b2 f2 c2 by (intro conjI)
  have 2: "executeInTx commitFailsDB (migrateUp 1 (Some stepUp)) =
     (Some (Wrap ''failed to commit transaction: '' (External ''connection lost'') []),
      \<lparr>ledger = [], schema = 0, faults = [],
        trace = [EvBeginTx, EvQueryVersion, EvActionUp 1, EvInsert 1, EvCommit]\<rparr>)"
    using transactional_failure_semantics [where d = commitFailsDB and tx = ?T2
        and fn = "migrateUp 1 (Some stepUp)" and tx' = ?T2' and c = "''connection lost''"
        and ?d2.0 = ?D2,
        THEN conjunct2, THEN conjunct2, THEN conjunct1, THEN mp, OF h2, THEN conjunct1]
    by (simp only: r2)
  let ?E3 = "Wrap ''execute in TX: ''
        (Wrap ''failed to execute in transaction: ''
          (Wrap ''failed to apply migration.up version 2: '' (External ''syntax error'') []) []) []"
  let ?D3 = "\<lparr>ledger = [1], schema = 1::nat, faults = [],
        trace = [EvBeginTx, EvQueryVersion, EvActionUp 2, EvRollback]\<rparr>"
  have a3: "applyUp (brokenMigration 2) (dbAt [1]) = (Some ?E3, ?D3)" by code_simp
  have h3: "0 < Version (brokenMigration 2) \<and>
      applyUp (brokenMigration 2) (dbAt [1]) = (Some ?E3, ?D3)"
    using a3 by (simp add: brokenMigration_def)
  have 3: "upLoop 0 0 [brokenMigration 2, txMigration 3] 1 (dbAt [1]) = (Some ?E3, 1, ?D3, [])"
    using transactional_failure_semantics [where dbVersion = 0 and m = "brokenMigration 2"
        and d = "dbAt [1]" and err = ?E3 and d' = ?D3 and limit = 0 and rest = "[txMigration 3]"
        and nb = 1,
        THEN conjunct2, THEN conjunct2, THEN conjunct2, THEN conjunct1, THEN mp, OF h3] .
  let ?R0 = "\<lparr>ledger = [], schema = 0::nat, faults = [], trace = [EvQueryVersion]\<rparr>"
  let ?P1 = "\<lparr>ledger = [1], schema = 1::nat, faults = [],
      trace = [EvQueryVersion, EvBeginTx, EvQueryVersion, EvActionUp 1, EvInsert 1, EvCommit]\<rparr>"
  let ?D4 = "\<lparr>ledger = [1], schema = 1::nat, faults = [],
      trace = [EvQueryVersion, EvBeginTx, EvQueryVersion, EvActionUp 1, EvInsert 1, EvCommit,
               EvBeginTx, EvQueryVersion, EvActionUp 2, EvRollback]\<rparr>"
  have g4: "getDBVersion freshDB = (Inr 0, ?R0)"
    by (simp add: getDBVersion_cases freshDB_def selectDBVersion_def)
  have s4: "sortMigrationsAsc brokenSecond = [txMigration 1] @ brokenMigration 2 # [txMigration 3]"
    by (simp add: sortMigrationsAsc_def SortFunc_def subInt_def brokenSecond_def
        txMigration_def brokenMigration_def)
  have p4: "upLoop 0 0 [txMigration 1] 0 ?R0 = (None, 1, ?P1, [''[x] Applied migration version 1''])"
    by code_simp
  have a4: "applyUp (brokenMigration 2) ?P1 = (Some ?E3, ?D4)" by code_simp
  have h4: "getDBVersion freshDB = (Inr 0, ?R0) \<and>
      sortMigrationsAsc brokenSecond = [txMigration 1] @ brokenMigration 2 # [txMigration 3] \<and>
      upLoop 0 0 [txMigration 1] 0 ?R0 = (None, 1, ?P1, [''[x] Applied migration version 1'']) \<and>
      ((0::int) \<le> 0 \<or> (1::int) < 0) \<and>
      0 < Version (brokenMigration 2) \<and>
      applyUp (brokenMigration 2) ?P1 = (Some ?E3, ?D4)"
    using g4 s4 p4 a4 by (simp add: brokenMigration_def)
  note run = transactional_failure_semantics [where ?d0.0 = freshDB and V = 0 and dr = ?R0
        and ms = brokenSecond and pre = "[txMigration 1]" and mf = "brokenMigration 2"
        and post = "[txMigration 3]" and limit = 0 and nbp = 1 and dp = ?P1
        and outp = "[''[x] Applied migration version 1'']" and errf = ?E3 and df = ?D4,
        THEN conjunct2, THEN conjunct2, THEN conjunct2, THEN conjunct2, THEN conjunct2,
        THEN conjunct2, THEN mp, OF h4]
  have 4: "runCmdUp brokenSecond freshDB 0 =
      (Some ?E3, ?D4, [''[x] Applied migration version 1''])"
    using run by (rule conjunct1)
  have "ledger ?D4 = ledger freshDB @ pending 0 [txMigration 1]"
    using run by (simp only:)
  then have 5: "ledger (fst (snd (runCmdUp brokenSecond freshDB 0))) =
      ledger freshDB @ pending 0 [txMigration 1]"
    by (simp only: 4 fst_conv snd_conv)
  have "\<exists>vs. prefix vs (pending (selectDBVersion (ledger freshDB)) (sortMigrationsAsc brokenSecond)) \<and>
      ledger ?D4 = ledger freshDB @ vs \<and>
      [''[x] Applied migration version 1''] = map appliedLine vs"
    using transactional_failure_semantics [where ms = brokenSecond and d = freshDB and limit = 0
        and err = ?E3 and d' = ?D4 and out = "[''[x] Applied migration version 1'']",
        THEN conjunct2, THEN conjunct2, THEN conjunct2, THEN conjunct2, THEN conjunct2,
        THEN conjunct1, THEN mp, OF 4] .
  then have 6: "\<exists>vs. prefix vs (pending (selectDBVersion (ledger freshDB))
                              (sortMigrationsAsc brokenSecond)) \<and>
      ledger (fst (snd (runCmdUp brokenSecond freshDB 0))) = ledger freshDB @ vs \<and>
      snd (snd (runCmdUp brokenSecond freshDB 0)) = map appliedLine vs"
    by (simp only: 4 fst_conv snd_conv)
  from 1 2 3 4 5 6 show ?thesis by (intro conjI)
qed

section \<open>Apply-all on a registry 1..N\<close>

lemma selectDBVersion_Max:
  "selectDBVersion rows = (if rows = [] then 0 else Max (set rows))"
proof (cases rows)
  case Nil
  then show ?thesis by (simp add: selectDBVersion_def)
next
  case (Cons r rs)
  have "fold max rs r = Max (set (r # rs))" by (rule Max.set_eq_fold [symmetric])
  with Cons show ?thesis by (simp add: selectDBVersion_def)
qed

lemma selectDBVersion_append_upto:
  assumes "selectDBVersion rows = V" "0 \<le> V" "V \<le> N"
  shows "selectDBVersion (rows @ [V + 1..N]) = N"
proof (cases "V = N")
  case True
  with assms show ?thesis by simp
next
  case False
  with assms have lt: "V < N" by simp
  have le: "\<forall>x\<in>set rows. x \<le> N"
  proof
    fix x assume x: "x \<in> set rows"
    then have "rows \<noteq> []" by auto
    with assms(1) have "Max (set rows) = V" by (simp add: selectDBVersion_Max)
    with x have "x \<le> V" by (metis List.finite_set Max_ge)
    with lt show "x \<le> N" by simp
  qed
  have mx: "Max (set (rows @ [V + 1..N])) = N"
  proof (rule Max_eqI)
    show "finite (set (rows @ [V + 1..N]))" by simp
    show "N \<in> set (rows @ [V + 1..N])" using lt by simp
    fix y assume "y \<in> set (rows @ [V + 1..N])"
    then show "y \<le> N" using le by auto
  qed
  have ne: "rows @ [V + 1..N] \<noteq> []" using lt by simp
  have "selectDBVersion (rows @ [V + 1..N]) = Max (set (rows @ [V + 1..N]))"
    using ne by (simp only: selectDBVersion_Max if_False)
  with mx show ?thesis by simp
qed

lemma filter_above_upto:
  assumes "0 \<le> V"
  shows "filter (\<lambda>v. V < v) [1..N] = [V + 1..N]"
proof (rule sorted_distinct_set_unique)
  show "sorted (filter (\<lambda>v. V < v) [1..N])" by (simp add: sorted_wrt_filter)
  show "distinct (filter (\<lambda>v. V < v) [1..N])" by simp
  show "sorted [V + 1..N]" by simp
  show "distinct [V + 1..N]" by simp
  show "set (filter (\<lambda>v. V < v) [1..N]) = set [V + 1..N]" using assms by auto
qed

lemma sorted_versions_upto:
  assumes "distinct (map Version ms)" "set (map Version ms) = {1..N}" "N < 2 ^ 63"
  shows "map Version (sortMigrationsAsc ms) = [1..N]"
proof -
  have r: "\<forall>m\<in>set ms. 0 < Version m \<and> Version m < 2 ^ 63"
  proof
    fix m assume "m \<in> set ms"
    then have "Version m \<in> {1..N}" using assms(2) by auto
    with assms(3) show "0 < Version m \<and> Version m < 2 ^ 63" by simp
  qed
  have asc: "sortMigrationsAsc ms = sort_key Version ms"
    using r assms(1) by (rule sortMigrationsAsc_eq)
  have m: "mset (map Version (sort_key Version ms)) = mset (map Version ms)" by simp
  show ?thesis
    unfolding asc
  proof (rule sorted_distinct_set_unique)
    show "sorted (map Version (sort_key Version ms))" by simp
    show "distinct (map Version (sort_key Version ms))"
      using assms(1) m by (metis mset_eq_imp_distinct_iff)
    show "sorted [1..N]" by simp
    show "distinct [1..N]" by simp
    show "set (map Version (sort_key Version ms)) = set [1..N]"
      using assms(2) by simp
  qed
qed

text \<open>
  Claim C1. Let the registry hold each of the versions 1..N exactly once (N a value of
  Go's \<open>int\<close>), let the ledger's current version be \<open>V\<close> with \<open>0 \<le> V \<le> N\<close>, and let apply-all
  (limit 0) return without error, that is, every execution succeeded. Then the migrations
  applied are exactly those of versions \<open>V + 1, ..., N\<close>, in this order: their actions ran
  and their versions were inserted in this order and nothing else was run, inserted or
  deleted, the ledger got these versions appended, the output has one line for each of
  them followed by the summary; their number is \<open>max 0 (N - V)\<close>; and the ledger's current
  version is \<open>N\<close> afterwards.
\<close>

theorem apply_all_reaches_N:
  assumes "distinct (map Version ms)" and "set (map Version ms) = {1..N}" and "N < 2 ^ 63"
    and "selectDBVersion (ledger d) = V" and "0 \<le> V" and "V \<le> N"
    and "runCmdUp ms d 0 = (None, d', out)"
  shows "ledger d' = ledger d @ [V + 1..N] \<and>
         selectDBVersion (ledger d') = N \<and>
         effects (trace d') =
           effects (trace d) @ concat (map (\<lambda>v. [EvActionUp v, EvInsert v]) [V + 1..N]) \<and>
         out = map appliedLine [V + 1..N] @
               [if N - V = 0 then ''No migrations to apply''
                else show_int (N - V) @ '' migration(s) applied''] \<and>
         int (length [V + 1..N]) = max 0 (N - V)"
proof -
  from assms(7) obtain d1 where r: "getDBVersion d = (Inr V, d1)"
    using assms(4)
    by (auto simp: runCmdUp_def split: prod.splits sum.splits dest: getDBVersion_Inr)
  from getDBVersion_Inr[OF r] have d1: "ledger d1 = ledger d" "trace d1 = trace d @ [EvQueryVersion]"
    by simp_all
  obtain res nb d2 out2 where
    loop: "upLoop V 0 (sortMigrationsAsc ms) 0 d1 = (res, nb, d2, out2)"
    by (metis prod_cases4)
  with r assms(7) have res: "res = None" and d2: "d' = d2"
    and out: "out = out2 @ [if nb = 0 then ''No migrations to apply''
                            else show_int nb @ '' migration(s) applied'']"
    by (auto simp: runCmdUp_def split: option.splits if_splits)
  have p: "pending V (sortMigrationsAsc ms) = [V + 1..N]"
    unfolding pending_def sorted_versions_upto[OF assms(1,2,3)]
    using assms(5) by (rule filter_above_upto)
  from upLoop_all[OF loop[unfolded res]] p
  have l: "ledger d2 = ledger d1 @ [V + 1..N]" and o2: "out2 = map appliedLine [V + 1..N]"
    and nb: "nb = int (length [V + 1..N])"
    and e: "effects (trace d2) =
        effects (trace d1) @ concat (map (\<lambda>v. [EvActionUp v, EvInsert v]) [V + 1..N])"
    by simp_all
  have len: "int (length [V + 1..N]) = N - V" using assms(6) by simp
  have "selectDBVersion (ledger d') = N"
    using selectDBVersion_append_upto[OF assms(4,5,6)] l d1 d2 by simp
  with l o2 nb e len d1 d2 out assms(6) show ?thesis by simp
qed


theorem apply_all_reaches_N_witness:
  "runCmdUp threeMigrations (dbAt [1]) 0 =
     (None,
      \<lparr>ledger = [1, 2, 3], schema = 3, faults = [],
        trace = [EvQueryVersion, EvQueryVersion, EvActionUp 2, EvInsert 2,
                 EvBeginTx, EvQueryVersion, EvActionUp 3, EvInsert 3, EvCommit]\<rparr>,
      [''[x] Applied migration version 2'', ''[x] Applied migration version 3'',
       ''2 migration(s) applied'']) \<and>
   selectDBVersion [1, 2, 3] = 3 \<and> [1, 2, 3] = [1] @ [1 + 1..3] \<and>
   int (length [1 + 1..3 :: int]) = max 0 (3 - 1)"
proof -
  let ?D = "\<lparr>ledger = [1, 2, 3], schema = 3::nat, faults = [],
        trace = [EvQueryVersion, EvQueryVersion, EvActionUp 2, EvInsert 2,
                 EvBeginTx, EvQueryVersion, EvActionUp 3, EvInsert 3, EvCommit]\<rparr>"
  let ?O = "[''[x] Applied migration version 2'', ''[x] Applied migration version 3'',
       ''2 migration(s) applied'']"
  have run: "runCmdUp threeMigrations (dbAt [1]) 0 = (None, ?D, ?O)" by code_simp
  have d: "distinct (map Version threeMigrations)"
    by (simp add: threeMigrations_def txMigration_def noTxMigration_def)
  have s: "set (map Version threeMigrations) = {1..3}"
    by (auto simp: threeMigrations_def txMigration_def noTxMigration_def)
  have v: "selectDBVersion (ledger (dbAt [1])) = 1"
    by (simp add: dbAt_def selectDBVersion_def)
  have "(3::int) < 2 ^ 63" "(0::int) \<le> 1" "(1::int) \<le> 3" by simp_all
  from apply_all_reaches_N [OF d s this(1) v this(2,3) run] run
  show ?thesis by (simp add: dbAt_def)
qed

section \<open>The command down\<close>

lemma applyDown_None:
  assumes "applyDown m d = (None, d')"
  shows "ledger d' = removeAll (Version m) (ledger d) \<and>
         effects (trace d') = effects (trace d) @ [EvActionDown (Version m), EvDelete (Version m)]"
proof (cases "UpDown m")
  case (Some ud)
  with assms have "executeInTx d (migrateDown (Version m) (Down ud)) = (None, d')"
    by (auto simp: applyDown_def split: prod.splits option.splits)
  from executeInTx_None[OF this] obtain tx tx' where
    b: "BeginTx d = (None, tx)" and f: "migrateDown (Version m) (Down ud) tx = (None, tx')"
    and c: "Commit tx' = (None, d')" by blast
  from BeginTx_frame[OF b] migrateDown_None[OF f] Commit_frame[OF c]
  show ?thesis by simp
next
  case None
  with assms obtain ud where "UpDownNoTX m = Some ud"
    and "executeNoTx d (migrateDown (Version m) (Down ud)) = (None, d')"
    by (auto simp: applyDown_def split: prod.splits option.splits)
  then have "migrateDown (Version m) (Down ud) d = (None, d')"
    by (auto simp: executeNoTx_def split: prod.splits option.splits)
  from migrateDown_None[OF this] show ?thesis by simp
qed

lemma applyDown_Some:
  assumes "applyDown m d = (Some e, d')"
  shows "ledger d' = ledger d"
  using assms
  by (auto simp: applyDown_def executeNoTx_def split: prod.splits option.splits
      dest: executeInTx_Some migrateDown_Some)

lemma downLoop_none:
  "\<forall>x\<in>set xs. V < Version x \<Longrightarrow> downLoop V xs d = None"
  by (induction xs) auto

lemma downLoop_first:
  assumes "sorted_wrt (\<lambda>a b. Version a > Version b) xs" "m \<in> set xs" "Version m \<le> V"
    and "\<forall>x\<in>set xs. Version x \<le> V \<longrightarrow> Version x \<le> Version m"
  shows "downLoop V xs d =
     Some (case applyDown m d of
             (Some err, d') \<Rightarrow> (Some err, d', [])
           | (None, d') \<Rightarrow> (None, d', [rolledBackLine (Version m)]))"
  using assms
proof (induction xs)
  case Nil
  then show ?case by simp
next
  case (Cons x xs)
  show ?case
  proof (cases "V < Version x")
    case True
    with Cons.prems have "m \<noteq> x" by auto
    with Cons.prems have "m \<in> set xs" by simp
    with Cons True show ?thesis by simp
  next
    case False
    then have xv: "Version x \<le> V" by simp
    with Cons.prems have le: "Version x \<le> Version m" by simp
    have "m = x"
    proof (rule ccontr)
      assume "m \<noteq> x"
      with Cons.prems have "m \<in> set xs" by simp
      with Cons.prems(1) have "Version m < Version x" by simp
      with le show False by simp
    qed
    with False show ?thesis
      by (simp add: rolledBackLine_def split: prod.splits option.splits)
  qed
qed

lemma highest_exists:
  assumes "\<exists>x\<in>set ms. Version x \<le> V"
  shows "\<exists>m. m \<in> set ms \<and> Version m \<le> V \<and>
             (\<forall>x\<in>set ms. Version x \<le> V \<longrightarrow> Version x \<le> Version m)"
proof -
  let ?S = "Version ` {x \<in> set ms. Version x \<le> V}"
  have fin: "finite ?S" by simp
  have ne: "?S \<noteq> {}" using assms by auto
  from Max_in[OF fin ne] obtain m where
    m: "m \<in> set ms" "Version m \<le> V" "Version m = Max ?S" by auto
  have "\<forall>x\<in>set ms. Version x \<le> V \<longrightarrow> Version x \<le> Version m"
  proof (intro ballI impI)
    fix x assume "x \<in> set ms" "Version x \<le> V"
    then have "Version x \<in> ?S" by simp
    from Max_ge[OF fin this] m(3) show "Version x \<le> Version m" by simp
  qed
  with m show ?thesis by blast
qed

lemma sortMigrationsDesc_strict:
  assumes "\<forall>m\<in>set ms. 0 < Version m \<and> Version m < 2 ^ 63" "distinct (map Version ms)"
  shows "sorted_wrt (\<lambda>a b. Version a > Version b) (sortMigrationsDesc ms)"
proof -
  have m: "mset (map Version (sort_key Version ms)) = mset (map Version ms)" by simp
  have "sorted (map Version (sort_key Version ms))" by simp
  moreover have "distinct (map Version (sort_key Version ms))"
    using assms(2) m by (metis mset_eq_imp_distinct_iff)
  ultimately have "sorted_wrt (<) (map Version (sort_key Version ms))"
    by (simp add: strict_sorted_iff)
  then have "sorted_wrt (\<lambda>a b. Version a < Version b) (sort_key Version ms)"
    by (simp add: sorted_wrt_map)
  then show ?thesis
    unfolding sortMigrationsDesc_eq[OF assms] by (simp add: sorted_wrt_rev)
qed

lemma driverCall_nofault:
  "faults d = [] \<Longrightarrow> driverCall ev d = (None, d\<lparr>trace := trace d @ [ev]\<rparr>)"
  by (simp add: driverCall_def)

lemma getDBVersion_nofault:
  "faults d = [] \<Longrightarrow>
   getDBVersion d = (Inr (selectDBVersion (ledger d)), d\<lparr>trace := trace d @ [EvQueryVersion]\<rparr>)"
  by (simp add: getDBVersion_def queryDBVersion_def driverCall_nofault)

lemma deleteDBVersion_nofault:
  "faults d = [] \<Longrightarrow>
   deleteDBVersion d v =
     (None, d\<lparr>ledger := removeAll v (ledger d), trace := trace d @ [EvDelete v]\<rparr>)"
  by (cases d) (simp add: deleteDBVersion_def execDelete_def driverCall_nofault)

lemma migrateDown_nofault:
  assumes "faults d = []" "v \<le> selectDBVersion (ledger d)" "snd (act (schema d)) = None"
  shows "migrateDown v (Some act) d =
     (None, d\<lparr>ledger := removeAll v (ledger d), schema := fst (act (schema d)),
              trace := trace d @ [EvQueryVersion, EvActionDown v, EvDelete v]\<rparr>)"
proof -
  obtain s' where a: "act (schema d) = (s', None)"
    using assms(3) by (cases "act (schema d)") auto
  let ?d1 = "d\<lparr>trace := trace d @ [EvQueryVersion]\<rparr>"
  let ?d2 = "?d1\<lparr>schema := s', trace := trace ?d1 @ [EvActionDown v]\<rparr>"
  have r: "runAction (EvActionDown v) act ?d1 = (None, ?d2)"
    using a by (simp add: runAction_def)
  have f: "faults ?d2 = []" using assms(1) by simp
  have "migrateDown v (Some act) d = deleteDBVersion ?d2 v"
    using assms(1,2) r by (simp add: migrateDown_def getDBVersion_nofault)
  also have "\<dots> = (None, ?d2\<lparr>ledger := removeAll v (ledger ?d2),
                                 trace := trace ?d2 @ [EvDelete v]\<rparr>)"
    using f by (rule deleteDBVersion_nofault)
  finally show ?thesis using a by (cases d) simp
qed

lemma executeInTx_nofault:
  assumes "faults d = []" "fn (d\<lparr>trace := trace d @ [EvBeginTx]\<rparr>) = (None, tx')"
    "faults tx' = []"
  shows "executeInTx d fn = (None, tx'\<lparr>trace := trace tx' @ [EvCommit]\<rparr>)"
  using assms
  by (simp add: executeInTx_def BeginTx_def Commit_def driverCall_nofault)

lemma applyDown_tx_nofault:
  assumes "faults d = []" "UpDown m = Some ud" "Down ud = Some act"
    "Version m \<le> selectDBVersion (ledger d)" "snd (act (schema d)) = None"
  shows "applyDown m d =
     (None, d\<lparr>ledger := removeAll (Version m) (ledger d), schema := fst (act (schema d)),
              trace := trace d @ [EvBeginTx, EvQueryVersion, EvActionDown (Version m),
                                  EvDelete (Version m), EvCommit]\<rparr>)"
proof -
  let ?tx = "d\<lparr>trace := trace d @ [EvBeginTx]\<rparr>"
  have "migrateDown (Version m) (Some act) ?tx =
     (None, ?tx\<lparr>ledger := removeAll (Version m) (ledger ?tx), schema := fst (act (schema ?tx)),
              trace := trace ?tx @ [EvQueryVersion, EvActionDown (Version m),
                                    EvDelete (Version m)]\<rparr>)"
    using assms by (intro migrateDown_nofault) simp_all
  from executeInTx_nofault[of d "migrateDown (Version m) (Some act)", OF assms(1) this] assms
  show ?thesis
    by (cases d) (simp add: applyDown_def)
qed

lemma applyDown_notx_nofault:
  assumes "faults d = []" "UpDown m = None" "UpDownNoTX m = Some ud" "Down ud = Some act"
    "Version m \<le> selectDBVersion (ledger d)" "snd (act (schema d)) = None"
  shows "applyDown m d =
     (None, d\<lparr>ledger := removeAll (Version m) (ledger d), schema := fst (act (schema d)),
              trace := trace d @ [EvQueryVersion, EvActionDown (Version m),
                                  EvDelete (Version m)]\<rparr>)"
  using assms migrateDown_nofault[of d "Version m" act]
  by (simp add: applyDown_def executeNoTx_def)

lemma migrateDown_effects:
  assumes "migrateDown v down d = (r, d')"
  shows "\<exists>es. prefix es [EvActionDown v, EvDelete v] \<and>
              effects (trace d') = effects (trace d) @ es"
proof (cases "getDBVersion d")
  case (Pair x d1)
  show ?thesis
  proof (cases x)
    case (Inl e)
    with Pair assms have "d' = d1" by (simp add: migrateDown_def)
    with Pair Inl getDBVersion_Inl[of d e d1] show ?thesis
      by (intro exI[of _ "[]"]) simp
  next
    case (Inr dbv)
    with Pair getDBVersion_Inr[of d dbv d1] have t1: "trace d1 = trace d @ [EvQueryVersion]"
      by simp
    show ?thesis
    proof (cases "v > dbv \<or> down = None")
      case True
      with Pair Inr assms have "d' = d1"
        by (auto simp: migrateDown_def split: if_splits)
      with t1 show ?thesis by (intro exI[of _ "[]"]) simp
    next
      case False
      then obtain act where act: "down = Some act" and le: "\<not> v > dbv" by auto
      obtain ra d2 where a: "runAction (EvActionDown v) act d1 = (ra, d2)"
        by (cases "runAction (EvActionDown v) act d1")
      from runAction_frame[OF a] t1
      have t2: "trace d2 = trace d @ [EvQueryVersion, EvActionDown v]" by simp
      show ?thesis
      proof (cases ra)
        case (Some e)
        with Pair Inr assms act le a have "d' = d2" by (simp add: migrateDown_def)
        with t2 show ?thesis by (intro exI[of _ "[EvActionDown v]"]) simp
      next
        case None
        with Pair Inr assms act le a have del: "deleteDBVersion d2 v = (r, d')"
          by (simp add: migrateDown_def)
        have "trace d' = trace d2 @ [EvDelete v]"
          using del deleteDBVersion_None[of d2 v d'] deleteDBVersion_Some[of d2 v _ d']
          by (cases r) auto
        with t2 show ?thesis
          by (intro exI[of _ "[EvActionDown v, EvDelete v]"]) simp
      qed
    qed
  qed
qed

lemma executeNoTx_trace:
  assumes "executeNoTx d fn = (r, d')"
  shows "\<exists>r0. fn d = (r0, d')"
  using assms by (auto simp: executeNoTx_def split: prod.splits option.splits)

lemma executeInTx_effects:
  assumes "executeInTx d fn = (r, d')"
  shows "effects (trace d') = effects (trace d) \<or>
         (\<exists>tx r0 tx'. fn tx = (r0, tx') \<and> effects (trace tx) = effects (trace d) \<and>
                       effects (trace d') = effects (trace tx'))"
proof (cases "BeginTx d")
  case (Pair b tx)
  from BeginTx_frame[OF Pair] have t: "effects (trace tx) = effects (trace d)" by simp
  show ?thesis
  proof (cases b)
    case (Some e)
    with Pair assms have "d' = tx" by (simp add: executeInTx_def)
    with t show ?thesis by simp
  next
    case None
    obtain r0 tx' where f: "fn tx = (r0, tx')" by (cases "fn tx")
    have "effects (trace d') = effects (trace tx')"
    proof (cases r0)
      case None': None
      obtain c d2 where c: "Commit tx' = (c, d2)" by (cases "Commit tx'")
      with Pair None f None' assms have "trace d' = trace d2"
        by (cases c) (auto simp: executeInTx_def)
      with Commit_frame[OF c] show ?thesis by simp
    next
      case (Some err)
      show ?thesis
      proof (cases "isPanic err")
        case True
        with Pair None f Some assms have "d' = discardTx d tx'" by (simp add: executeInTx_def)
        then show ?thesis by simp
      next
        case False
        with Pair None f Some assms have "d' = discardTx d (snd (Rollback tx'))"
          by (simp add: executeInTx_def split: prod.splits)
        then show ?thesis by (simp add: Rollback_frame)
      qed
    qed
    with f t show ?thesis by blast
  qed
qed

lemma applyDown_effects:
  assumes "applyDown m d = (r, d')"
  shows "\<exists>es. prefix es [EvActionDown (Version m), EvDelete (Version m)] \<and>
              effects (trace d') = effects (trace d) @ es"
proof (cases "UpDown m")
  case (Some ud)
  obtain r1 d1 where e: "executeInTx d (migrateDown (Version m) (Down ud)) = (r1, d1)"
    by (cases "executeInTx d (migrateDown (Version m) (Down ud))")
  with Some assms have "d' = d1" by (auto simp: applyDown_def split: option.splits)
  with executeInTx_effects[OF e] migrateDown_effects[of "Version m" "Down ud"]
  show ?thesis by (metis append_Nil2 prefix_bot.extremum)
next
  case None
  show ?thesis
  proof (cases "UpDownNoTX m")
    case nn: None
    with None assms have "d' = d" by (simp add: applyDown_def)
    then show ?thesis by (intro exI[of _ "[]"]) simp
  next
    case (Some ud)
    obtain r1 d1 where e: "executeNoTx d (migrateDown (Version m) (Down ud)) = (r1, d1)"
      by (cases "executeNoTx d (migrateDown (Version m) (Down ud))")
    with None Some assms have "d' = d1" by (auto simp: applyDown_def split: option.splits)
    with executeNoTx_trace[OF e] migrateDown_effects[of "Version m" "Down ud" d]
    show ?thesis by blast
  qed
qed

text \<open>
  Claim C5. Let the registry be valid and let \<open>V\<close> be the ledger's current version as
  rollback-one reads it. If \<open>V = 0\<close>, or if no version of the registry is at most \<open>V\<close>,
  nothing is run, inserted or deleted, ledger and schema are untouched and the one line
  written is "No migrations to roll back". Otherwise, some version of the registry being
  at most \<open>V\<close>, there is a migration \<open>m\<close> with the highest version that is at most \<open>V\<close>:
  rollback-one hands \<open>m\<close>, and no other migration, to the executor of its mode, once, and
  returns. Whatever the outcome, the only action that can have run is the down action of
  \<open>m\<close>, once, and the only change sent to the ledger is the delete of the version of \<open>m\<close>,
  once and after that action. When no call to the database fails and the down action
  returns no error, in transactional mode as in non-transactional mode, rollback-one
  returns without error: the down action of \<open>m\<close> ran on the schema, the ledger is the
  former one without the version of \<open>m\<close>, and the line written names that version. When
  rollback-one returns without error these hold too; when it returns an error, the ledger
  is unchanged and nothing is written.
\<close>

theorem rollback_one:
  assumes "validateMigrations rank ms = None" and "\<forall>m\<in>set ms. goInt (Version m)"
    and "getDBVersion d = (Inr V, d1)"
  shows "(V = 0 \<or> (\<forall>x\<in>set ms. V < Version x) \<longrightarrow>
            runCmdDown ms d = (None, d1, [''No migrations to roll back'']) \<and>
            ledger d1 = ledger d \<and> schema d1 = schema d \<and>
            effects (trace d1) = effects (trace d)) \<and>
         ((\<exists>x\<in>set ms. Version x \<le> V) \<longrightarrow>
            (\<exists>h. h \<in> set ms \<and> Version h \<le> V \<and>
                 (\<forall>x\<in>set ms. Version x \<le> V \<longrightarrow> Version x \<le> Version h))) \<and>
         (m \<in> set ms \<and> Version m \<le> V \<and> (\<forall>x\<in>set ms. Version x \<le> V \<longrightarrow> Version x \<le> Version m) \<longrightarrow>
            runCmdDown ms d =
              (case applyDown m d1 of
                 (Some err, d') \<Rightarrow> (Some err, d', [])
               | (None, d') \<Rightarrow> (None, d', [rolledBackLine (Version m)])) \<and>
            (runCmdDown ms d = (None, d', out) \<longrightarrow>
               out = [rolledBackLine (Version m)] \<and>
               ledger d' = removeAll (Version m) (ledger d) \<and>
               effects (trace d') =
                 effects (trace d) @ [EvActionDown (Version m), EvDelete (Version m)]) \<and>
            (runCmdDown ms d = (Some err, d', out) \<longrightarrow> out = [] \<and> ledger d' = ledger d)) \<and>
         (faults d = [] \<and> m \<in> set ms \<and> Version m \<le> V \<and>
          (\<forall>x\<in>set ms. Version x \<le> V \<longrightarrow> Version x \<le> Version m) \<and>
          UpDown m = Some ud \<and> Down ud = Some act \<and> snd (act (schema d)) = None \<longrightarrow>
            runCmdDown ms d =
              (None,
               d\<lparr>ledger := removeAll (Version m) (ledger d), schema := fst (act (schema d)),
                 trace := trace d @ [EvQueryVersion, EvBeginTx, EvQueryVersion,
                                     EvActionDown (Version m), EvDelete (Version m), EvCommit]\<rparr>,
               [rolledBackLine (Version m)])) \<and>
         (faults d = [] \<and> m \<in> set ms \<and> Version m \<le> V \<and>
          (\<forall>x\<in>set ms. Version x \<le> V \<longrightarrow> Version x \<le> Version m) \<and>
          UpDown m = None \<and> UpDownNoTX m = Some ud \<and> Down ud = Some act \<and>
          snd (act (schema d)) = None \<longrightarrow>
            runCmdDown ms d =
              (None,
               d\<lparr>ledger := removeAll (Version m) (ledger d), schema := fst (act (schema d)),
                 trace := trace d @ [EvQueryVersion, EvQueryVersion,
                                     EvActionDown (Version m), EvDelete (Version m)]\<rparr>,
               [rolledBackLine (Version m)])) \<and>
         (m \<in> set ms \<and> Version m \<le> V \<and>
          (\<forall>x\<in>set ms. Version x \<le> V \<longrightarrow> Version x \<le> Version m) \<and>
          runCmdDown ms d = (res, dd, lines) \<longrightarrow>
            (\<exists>es. prefix es [EvActionDown (Version m), EvDelete (Version m)] \<and>
                  effects (trace dd) = effects (trace d) @ es))"
proof -
  from assms(1) have v: "\<forall>m\<in>set ms. validate m = None" and dist: "distinct (map Version ms)"
    by (simp_all add: validateMigrations_None_iff)
  have r: "\<forall>m\<in>set ms. 0 < Version m \<and> Version m < 2 ^ 63"
    using v assms(2) by (auto simp: goInt_def dest: validate_positive)
  from getDBVersion_Inr[OF assms(3)]
  have d1: "ledger d1 = ledger d" "schema d1 = schema d" "effects (trace d1) = effects (trace d)"
    by simp_all
  have run: "runCmdDown ms d =
      (case downLoop V (sortMigrationsDesc ms) d1 of
         Some r \<Rightarrow> r | None \<Rightarrow> (None, d1, [''No migrations to roll back'']))"
    using assms(3) by (simp add: runCmdDown_def)
  have none: "V = 0 \<or> (\<forall>x\<in>set ms. V < Version x) \<longrightarrow>
            runCmdDown ms d = (None, d1, [''No migrations to roll back''])"
  proof
    assume "V = 0 \<or> (\<forall>x\<in>set ms. V < Version x)"
    with r have "\<forall>x\<in>set (sortMigrationsDesc ms). V < Version x"
      by (auto simp: set_sortMigrationsDesc)
    from downLoop_none[OF this] run
    show "runCmdDown ms d = (None, d1, [''No migrations to roll back''])" by simp
  qed
  have some: "runCmdDown ms d =
              (case applyDown m d1 of
                 (Some err, d') \<Rightarrow> (Some err, d', [])
               | (None, d') \<Rightarrow> (None, d', [rolledBackLine (Version m)]))"
    if a: "m \<in> set ms \<and> Version m \<le> V \<and>
           (\<forall>x\<in>set ms. Version x \<le> V \<longrightarrow> Version x \<le> Version m)"
  proof -
    have "downLoop V (sortMigrationsDesc ms) d1 =
       Some (case applyDown m d1 of
             (Some err, d') \<Rightarrow> (Some err, d', [])
           | (None, d') \<Rightarrow> (None, d', [rolledBackLine (Version m)]))"
      using a by (intro downLoop_first sortMigrationsDesc_strict[OF r dist])
        (simp_all add: set_sortMigrationsDesc)
    with run show ?thesis by simp
  qed
  have ok: "out = [rolledBackLine (Version m)] \<and>
               ledger d' = removeAll (Version m) (ledger d) \<and>
               effects (trace d') =
                 effects (trace d) @ [EvActionDown (Version m), EvDelete (Version m)]"
    if a: "m \<in> set ms \<and> Version m \<le> V \<and>
           (\<forall>x\<in>set ms. Version x \<le> V \<longrightarrow> Version x \<le> Version m)"
      and b: "runCmdDown ms d = (None, d', out)"
  proof -
    from some[OF a] b have "applyDown m d1 = (None, d')" "out = [rolledBackLine (Version m)]"
      by (auto split: prod.splits option.splits)
    with applyDown_None[of m d1 d'] d1 show ?thesis by simp
  qed
  have bad: "out = [] \<and> ledger d' = ledger d"
    if a: "m \<in> set ms \<and> Version m \<le> V \<and>
           (\<forall>x\<in>set ms. Version x \<le> V \<longrightarrow> Version x \<le> Version m)"
      and b: "runCmdDown ms d = (Some err, d', out)"
  proof -
    from some[OF a] b have "applyDown m d1 = (Some err, d')" "out = []"
      by (auto split: prod.splits option.splits)
    with applyDown_Some[of m d1 err d'] d1 show ?thesis by simp
  qed
  have ex: "(\<exists>x\<in>set ms. Version x \<le> V) \<longrightarrow>
            (\<exists>h. h \<in> set ms \<and> Version h \<le> V \<and>
                 (\<forall>x\<in>set ms. Version x \<le> V \<longrightarrow> Version x \<le> Version h))"
    using highest_exists[of ms V] by blast
  from none d1 have first: "V = 0 \<or> (\<forall>x\<in>set ms. V < Version x) \<longrightarrow>
            runCmdDown ms d = (None, d1, [''No migrations to roll back'']) \<and>
            ledger d1 = ledger d \<and> schema d1 = schema d \<and>
            effects (trace d1) = effects (trace d)"
    by simp
  from some ok bad have second: "m \<in> set ms \<and> Version m \<le> V \<and>
      (\<forall>x\<in>set ms. Version x \<le> V \<longrightarrow> Version x \<le> Version m) \<longrightarrow>
            runCmdDown ms d =
              (case applyDown m d1 of
                 (Some err, d') \<Rightarrow> (Some err, d', [])
               | (None, d') \<Rightarrow> (None, d', [rolledBackLine (Version m)])) \<and>
            (runCmdDown ms d = (None, d', out) \<longrightarrow>
               out = [rolledBackLine (Version m)] \<and>
               ledger d' = removeAll (Version m) (ledger d) \<and>
               effects (trace d') =
                 effects (trace d) @ [EvActionDown (Version m), EvDelete (Version m)]) \<and>
            (runCmdDown ms d = (Some err, d', out) \<longrightarrow> out = [] \<and> ledger d' = ledger d)"
    by blast
  have nofault: "d1 = d\<lparr>trace := trace d @ [EvQueryVersion]\<rparr> \<and> V = selectDBVersion (ledger d)"
    if "faults d = []"
    using getDBVersion_Inr[OF assms(3)] that by (cases d) simp
  have ntx: "faults d = [] \<and> m \<in> set ms \<and> Version m \<le> V \<and>
          (\<forall>x\<in>set ms. Version x \<le> V \<longrightarrow> Version x \<le> Version m) \<and>
          UpDown m = Some ud \<and> Down ud = Some act \<and> snd (act (schema d)) = None \<longrightarrow>
            runCmdDown ms d =
              (None,
               d\<lparr>ledger := removeAll (Version m) (ledger d), schema := fst (act (schema d)),
                 trace := trace d @ [EvQueryVersion, EvBeginTx, EvQueryVersion,
                                     EvActionDown (Version m), EvDelete (Version m), EvCommit]\<rparr>,
               [rolledBackLine (Version m)])"
  proof
    assume a: "faults d = [] \<and> m \<in> set ms \<and> Version m \<le> V \<and>
          (\<forall>x\<in>set ms. Version x \<le> V \<longrightarrow> Version x \<le> Version m) \<and>
          UpDown m = Some ud \<and> Down ud = Some act \<and> snd (act (schema d)) = None"
    then have nf: "d1 = d\<lparr>trace := trace d @ [EvQueryVersion]\<rparr>" "V = selectDBVersion (ledger d)"
      using nofault by simp_all
    have "applyDown m d1 =
       (None, d1\<lparr>ledger := removeAll (Version m) (ledger d1), schema := fst (act (schema d1)),
              trace := trace d1 @ [EvBeginTx, EvQueryVersion, EvActionDown (Version m),
                                  EvDelete (Version m), EvCommit]\<rparr>)"
      using a nf by (intro applyDown_tx_nofault[of d1 m ud act]) simp_all
    moreover have "runCmdDown ms d =
              (case applyDown m d1 of
                 (Some err, d') \<Rightarrow> (Some err, d', [])
               | (None, d') \<Rightarrow> (None, d', [rolledBackLine (Version m)]))"
      using a by (intro some) simp
    ultimately show "runCmdDown ms d =
              (None,
               d\<lparr>ledger := removeAll (Version m) (ledger d), schema := fst (act (schema d)),
                 trace := trace d @ [EvQueryVersion, EvBeginTx, EvQueryVersion,
                                     EvActionDown (Version m), EvDelete (Version m), EvCommit]\<rparr>,
               [rolledBackLine (Version m)])"
      using nf(1) by (cases d) simp
  qed
  have nnotx: "faults d = [] \<and> m \<in> set ms \<and> Version m \<le> V \<and>
          (\<forall>x\<in>set ms. Version x \<le> V \<longrightarrow> Version x \<le> Version m) \<and>
          UpDown m = None \<and> UpDownNoTX m = Some ud \<and> Down ud = Some act \<and>
          snd (act (schema d)) = None \<longrightarrow>
            runCmdDown ms d =
              (None,
               d\<lparr>ledger := removeAll (Version m) (ledger d), schema := fst (act (schema d)),
                 trace := trace d @ [EvQueryVersion, EvQueryVersion,
                                     EvActionDown (Version m), EvDelete (Version m)]\<rparr>,
               [rolledBackLine (Version m)])"
  proof
    assume a: "faults d = [] \<and> m \<in> set ms \<and> Version m \<le> V \<and>
          (\<forall>x\<in>set ms. Version x \<le> V \<longrightarrow> Version x \<le> Version m) \<and>
          UpDown m = None \<and> UpDownNoTX m = Some ud \<and> Down ud = Some act \<and>
          snd (act (schema d)) = None"
    then have nf: "d1 = d\<lparr>trace := trace d @ [EvQueryVersion]\<rparr>" "V = selectDBVersion (ledger d)"
      using nofault by simp_all
    have "applyDown m d1 =
       (None, d1\<lparr>ledger := removeAll (Version m) (ledger d1), schema := fst (act (schema d1)),
              trace := trace d1 @ [EvQueryVersion, EvActionDown (Version m),
                                  EvDelete (Version m)]\<rparr>)"
      using a nf by (intro applyDown_notx_nofault[of d1 m ud act]) simp_all
    moreover have "runCmdDown ms d =
              (case applyDown m d1 of
                 (Some err, d') \<Rightarrow> (Some err, d', [])
               | (None, d') \<Rightarrow> (None, d', [rolledBackLine (Version m)]))"
      using a by (intro some) simp
    ultimately show "runCmdDown ms d =
              (None,
               d\<lparr>ledger := removeAll (Version m) (ledger d), schema := fst (act (schema d)),
                 trace := trace d @ [EvQueryVersion, EvQueryVersion,
                                     EvActionDown (Version m), EvDelete (Version m)]\<rparr>,
               [rolledBackLine (Version m)])"
      using nf(1) by (cases d) simp
  qed
  have eff: "m \<in> set ms \<and> Version m \<le> V \<and>
          (\<forall>x\<in>set ms. Version x \<le> V \<longrightarrow> Version x \<le> Version m) \<and>
          runCmdDown ms d = (res, dd, lines) \<longrightarrow>
            (\<exists>es. prefix es [EvActionDown (Version m), EvDelete (Version m)] \<and>
                  effects (trace dd) = effects (trace d) @ es)"
  proof
    assume a: "m \<in> set ms \<and> Version m \<le> V \<and>
          (\<forall>x\<in>set ms. Version x \<le> V \<longrightarrow> Version x \<le> Version m) \<and>
          runCmdDown ms d = (res, dd, lines)"
    obtain r0 d0 where ap: "applyDown m d1 = (r0, d0)" by (cases "applyDown m d1")
    have "runCmdDown ms d =
              (case applyDown m d1 of
                 (Some err, d') \<Rightarrow> (Some err, d', [])
               | (None, d') \<Rightarrow> (None, d', [rolledBackLine (Version m)]))"
      using a by (intro some) simp
    with a ap have "dd = d0" by (cases r0) auto
    with applyDown_effects[OF ap] d1(3)
    show "\<exists>es. prefix es [EvActionDown (Version m), EvDelete (Version m)] \<and>
                  effects (trace dd) = effects (trace d) @ es"
      by simp
  qed
  from first ex second ntx nnotx eff show ?thesis by (intro conjI)
qed


theorem rollback_one_witness:
  "runCmdDown threeMigrations freshDB =
     (None, \<lparr>ledger = [], schema = 0, faults = [], trace = [EvQueryVersion]\<rparr>,
      [''No migrations to roll back'']) \<and>
   runCmdDown threeMigrations (dbAt [1, 2, 3]) =
     (None,
      \<lparr>ledger = [1, 2], schema = 2, faults = [],
        trace = [EvQueryVersion, EvBeginTx, EvQueryVersion, EvActionDown 3, EvDelete 3,
                 EvCommit]\<rparr>,
      [''[x]-->[ ] Rolled back migration version 3'']) \<and>
   runCmdDown threeMigrations (dbAt [1, 2]) =
     (None,
      \<lparr>ledger = [1], schema = 1, faults = [],
        trace = [EvQueryVersion, EvQueryVersion, EvActionDown 2, EvDelete 2]\<rparr>,
      [''[x]-->[ ] Rolled back migration version 2'']) \<and>
   [1, 2] = removeAll 3 (ledger (dbAt [1, 2, 3])) \<and>
   (\<exists>es. prefix es [EvActionDown 2, EvDelete 2] \<and>
      effects (trace (fst (snd (runCmdDown threeMigrations (dbAt [1, 2]))))) =
        effects (trace (dbAt [1, 2])) @ es)"
proof -
  have v: "validateMigrations nat threeMigrations = None"
    by (simp add: validateMigrations_None_iff validate_def threeMigrations_def
        txMigration_def noTxMigration_def)
  have g: "\<forall>m\<in>set threeMigrations. goInt (Version m)"
    by (simp add: goInt_def threeMigrations_def txMigration_def noTxMigration_def)
  let ?ud = "\<lparr>Up = Some stepUp, Down = Some stepDown\<rparr>"
  let ?D0 = "\<lparr>ledger = [], schema = 0::nat, faults = [], trace = [EvQueryVersion]\<rparr>"
  have r0: "getDBVersion freshDB = (Inr 0, ?D0)"
    by (simp add: getDBVersion_cases freshDB_def selectDBVersion_def)
  have h0: "(0::int) = 0 \<or> (\<forall>x\<in>set threeMigrations. 0 < Version x)" by simp
  have 1: "runCmdDown threeMigrations freshDB = (None, ?D0, [''No migrations to roll back''])"
    using rollback_one [OF v g r0, where m = "txMigration 3", THEN conjunct1, THEN mp, OF h0]
    by (rule conjunct1)
  let ?D1 = "\<lparr>ledger = [1, 2, 3], schema = 3::nat, faults = [], trace = [EvQueryVersion]\<rparr>"
  let ?D2 = "\<lparr>ledger = [1, 2], schema = 2::nat, faults = [],
        trace = [EvQueryVersion, EvBeginTx, EvQueryVersion, EvActionDown 3, EvDelete 3,
                 EvCommit]\<rparr>"
  have r3: "getDBVersion (dbAt [1, 2, 3]) = (Inr 3, ?D1)"
    by (simp add: getDBVersion_dbAt selectDBVersion_def)
  have top: "txMigration 3 \<in> set threeMigrations \<and> Version (txMigration 3) \<le> 3 \<and>
      (\<forall>x\<in>set threeMigrations. Version x \<le> 3 \<longrightarrow> Version x \<le> Version (txMigration 3))"
    by (simp add: threeMigrations_def txMigration_def noTxMigration_def)
  have l3: "rolledBackLine 3 = ''[x]-->[ ] Rolled back migration version 3''"
    "rolledBackLine 2 = ''[x]-->[ ] Rolled back migration version 2''"
    by code_simp+
  have h3: "faults (dbAt [1, 2, 3]) = [] \<and> txMigration 3 \<in> set threeMigrations \<and>
      Version (txMigration 3) \<le> 3 \<and>
      (\<forall>x\<in>set threeMigrations. Version x \<le> 3 \<longrightarrow> Version x \<le> Version (txMigration 3)) \<and>
      UpDown (txMigration 3) = Some ?ud \<and> Down ?ud = Some stepDown \<and>
      snd (stepDown (schema (dbAt [1, 2, 3]))) = None"
    using top by (simp add: dbAt_def txMigration_def stepDown_def)
  have 2: "runCmdDown threeMigrations (dbAt [1, 2, 3]) =
      (None, ?D2, [''[x]-->[ ] Rolled back migration version 3''])"
    using rollback_one [OF v g r3, where m = "txMigration 3" and ud = ?ud and act = stepDown,
        THEN conjunct2, THEN conjunct2, THEN conjunct2, THEN conjunct1, THEN mp, OF h3]
    by (simp add: dbAt_def txMigration_def stepDown_def l3)
  have h3': "txMigration 3 \<in> set threeMigrations \<and> Version (txMigration 3) \<le> 3 \<and>
      (\<forall>x\<in>set threeMigrations. Version x \<le> 3 \<longrightarrow> Version x \<le> Version (txMigration 3))"
    by (rule top)
  have "runCmdDown threeMigrations (dbAt [1, 2, 3]) =
          (None, ?D2, [''[x]-->[ ] Rolled back migration version 3'']) \<longrightarrow>
        [''[x]-->[ ] Rolled back migration version 3''] = [rolledBackLine (Version (txMigration 3))] \<and>
        ledger ?D2 = removeAll (Version (txMigration 3)) (ledger (dbAt [1, 2, 3])) \<and>
        effects (trace ?D2) = effects (trace (dbAt [1, 2, 3])) @
           [EvActionDown (Version (txMigration 3)), EvDelete (Version (txMigration 3))]"
    using rollback_one [OF v g r3, where m = "txMigration 3" and d' = ?D2
        and out = "[''[x]-->[ ] Rolled back migration version 3'']",
        THEN conjunct2, THEN conjunct2, THEN conjunct1, THEN mp, OF h3',
        THEN conjunct2, THEN conjunct1] .
  with 2 have "ledger ?D2 = removeAll (Version (txMigration 3)) (ledger (dbAt [1, 2, 3]))"
    by (elim impE conjE) assumption+
  then have 3: "[1, 2] = removeAll 3 (ledger (dbAt [1, 2, 3]))"
    by (simp add: txMigration_def)
  let ?E1 = "\<lparr>ledger = [1, 2], schema = 2::nat, faults = [], trace = [EvQueryVersion]\<rparr>"
  let ?E2 = "\<lparr>ledger = [1], schema = 1::nat, faults = [],
        trace = [EvQueryVersion, EvQueryVersion, EvActionDown 2, EvDelete 2]\<rparr>"
  have r2: "getDBVersion (dbAt [1, 2]) = (Inr 2, ?E1)"
    by (simp add: getDBVersion_dbAt selectDBVersion_def)
  have h4: "faults (dbAt [1, 2]) = [] \<and> noTxMigration 2 \<in> set threeMigrations \<and>
      Version (noTxMigration 2) \<le> 2 \<and>
      (\<forall>x\<in>set threeMigrations. Version x \<le> 2 \<longrightarrow> Version x \<le> Version (noTxMigration 2)) \<and>
      UpDown (noTxMigration 2) = None \<and> UpDownNoTX (noTxMigration 2) = Some ?ud \<and>
      Down ?ud = Some stepDown \<and> snd (stepDown (schema (dbAt [1, 2]))) = None"
    by (simp add: dbAt_def threeMigrations_def txMigration_def noTxMigration_def stepDown_def)
  have 4: "runCmdDown threeMigrations (dbAt [1, 2]) =
      (None, ?E2, [''[x]-->[ ] Rolled back migration version 2''])"
    using rollback_one [OF v g r2, where m = "noTxMigration 2" and ud = ?ud and act = stepDown,
        THEN conjunct2, THEN conjunct2, THEN conjunct2, THEN conjunct2, THEN conjunct1,
        THEN mp, OF h4]
    by (simp add: dbAt_def noTxMigration_def stepDown_def l3)
  have h5: "noTxMigration 2 \<in> set threeMigrations \<and> Version (noTxMigration 2) \<le> 2 \<and>
      (\<forall>x\<in>set threeMigrations. Version x \<le> 2 \<longrightarrow> Version x \<le> Version (noTxMigration 2)) \<and>
      runCmdDown threeMigrations (dbAt [1, 2]) =
        (None, ?E2, [''[x]-->[ ] Rolled back migration version 2''])"
    using 4 by (simp add: threeMigrations_def txMigration_def noTxMigration_def)
  have "\<exists>es. prefix es [EvActionDown (Version (noTxMigration 2)),
                         EvDelete (Version (noTxMigration 2))] \<and>
      effects (trace ?E2) = effects (trace (dbAt [1, 2])) @ es"
    using rollback_one [OF v g r2, where m = "noTxMigration 2" and res = None and dd = ?E2
        and lines = "[''[x]-->[ ] Rolled back migration version 2'']",
        THEN conjunct2, THEN conjunct2, THEN conjunct2, THEN conjunct2, THEN conjunct2,
        THEN mp, OF h5] .
  then have 5: "\<exists>es. prefix es [EvActionDown 2, EvDelete 2] \<and>
      effects (trace (fst (snd (runCmdDown threeMigrations (dbAt [1, 2]))))) =
        effects (trace (dbAt [1, 2])) @ es"
    by (simp only: 4 fst_conv snd_conv) (simp add: noTxMigration_def)
  from 1 2 4 3 5 show ?thesis by (intro conjI)
qed

end
